theory Spec2Isabelle
  imports Main
begin

section \<open>Data model\<close>

text \<open>
  Keys and values are Python \<open>str\<close>. The three exceptions that the cache code can raise
  are the built-in \<open>KeyError\<close> (\<open>OrderedDict.popitem\<close> on an empty dictionary,
  \<open>OrderedDict.pop\<close> of a missing key), \<open>ValueError\<close> (\<open>min\<close> of an empty
  iterable, and the explicit raise in \<open>addCacheLevel\<close>) and \<open>IndexError\<close>
  (\<open>self.levels[0]\<close> on an empty list, and the explicit raise in
  \<open>removeCacheLevel\<close>).
\<close>

type_synonym key = string
type_synonym val = string

datatype error = KeyError | ValueError | IndexError

subsection \<open>Ordered dictionaries\<close>

text \<open>
  \<open>OrderedDict\<close> and \<open>Counter\<close> both iterate in insertion order, and the eviction
  rules depend on that order, so a dictionary is an association list, oldest entry first.
  A Python dictionary holds a key at most once: \<open>distinct (dict_keys d)\<close> is the
  representation invariant, kept by every operation below.
\<close>

definition dict_keys :: "(key \<times> 'a) list \<Rightarrow> key list" where
  "dict_keys d = map fst d"

definition dict_contains :: "key \<Rightarrow> (key \<times> 'a) list \<Rightarrow> bool" where
  "dict_contains k d = (k \<in> set (dict_keys d))"

text \<open>\<open>d[k] = v\<close>: an existing key keeps its position, a new key goes to the end.\<close>

fun dict_set :: "key \<Rightarrow> 'a \<Rightarrow> (key \<times> 'a) list \<Rightarrow> (key \<times> 'a) list" where
  "dict_set k v [] = [(k, v)]"
| "dict_set k v (p # ps) = (if fst p = k then (k, v) # ps else p # dict_set k v ps)"

text \<open>\<open>del d[k]\<close> for a key that is present (every call site checks membership first).\<close>

definition dict_del :: "key \<Rightarrow> (key \<times> 'a) list \<Rightarrow> (key \<times> 'a) list" where
  "dict_del k d = filter (\<lambda>p. fst p \<noteq> k) d"

text \<open>
  \<open>d.move_to_end(k)\<close>. Python raises \<open>KeyError\<close> for a missing key; both call sites
  are guarded by \<open>key in self.cache\<close>, so that case is the identity here.
\<close>

definition move_to_end :: "key \<Rightarrow> (key \<times> 'a) list \<Rightarrow> (key \<times> 'a) list" where
  "move_to_end k d =
     (case map_of d k of None \<Rightarrow> d | Some v \<Rightarrow> dict_del k d @ [(k, v)])"

text \<open>\<open>d.popitem(last=False)\<close>: drops the oldest entry, \<open>KeyError\<close> when empty.\<close>

definition popitem_first :: "(key \<times> 'a) list \<Rightarrow> error + (key \<times> 'a) list" where
  "popitem_first d = (case d of [] \<Rightarrow> Inl KeyError | p # ps \<Rightarrow> Inr ps)"

text \<open>\<open>d.pop(k)\<close> without a default: \<open>KeyError\<close> when the key is missing.\<close>

definition dict_pop :: "key \<Rightarrow> (key \<times> 'a) list \<Rightarrow> error + (key \<times> 'a) list" where
  "dict_pop k d = (if dict_contains k d then Inr (dict_del k d) else Inl KeyError)"

subsection \<open>Counters\<close>

text \<open>
  A \<open>Counter\<close> reads a missing key as 0, and its \<open>__delitem__\<close> ignores a missing key.
  Counts are Python integers.
\<close>

definition counter_get :: "(key \<times> int) list \<Rightarrow> key \<Rightarrow> int" where
  "counter_get c k = (case map_of c k of None \<Rightarrow> 0 | Some n \<Rightarrow> n)"

text \<open>\<open>c[k] += 1\<close>\<close>

definition counter_incr :: "key \<Rightarrow> (key \<times> int) list \<Rightarrow> (key \<times> int) list" where
  "counter_incr k c = dict_set k (counter_get c k + 1) c"

definition counter_del :: "key \<Rightarrow> (key \<times> int) list \<Rightarrow> (key \<times> int) list" where
  "counter_del k c = dict_del k c"

text \<open>
  \<open>min(c, key=lambda k: c[k])\<close>: the keys are visited in insertion order and a later key
  replaces the running minimum only when its count is strictly smaller, so the first of
  several minimal keys is returned. \<open>None\<close> stands for the \<open>ValueError\<close> that
  \<open>min\<close> raises on an empty counter.
\<close>

fun min_from :: "key \<times> int \<Rightarrow> (key \<times> int) list \<Rightarrow> key \<times> int" where
  "min_from b [] = b"
| "min_from b (p # ps) = min_from (if snd p < snd b then p else b) ps"

definition min_key :: "(key \<times> int) list \<Rightarrow> key option" where
  "min_key c = (case c of [] \<Rightarrow> None | p # ps \<Rightarrow> Some (fst (min_from p ps)))"

subsection \<open>Eviction policies\<close>

text \<open>
  \<open>EvictionPolicy\<close> has the fields \<open>size\<close> and \<open>cache\<close> (and a lock, which a
  sequential model does not need); \<open>LFUPolicy\<close> extends it with \<open>frequency\<close>.
  The record extension mirrors the subclassing, so that the inherited \<open>remove\<close> is
  one function on both.
\<close>

record eviction_policy =
  psize :: int
  cache :: "(key \<times> val) list"

record lfu_policy = eviction_policy +
  frequency :: "(key \<times> int) list"

text \<open>\<open>EvictionPolicy.remove\<close>, inherited unchanged by both policies.\<close>

definition policy_remove :: "key \<Rightarrow> 'a eviction_policy_scheme \<Rightarrow> 'a eviction_policy_scheme" where
  "policy_remove k s =
     (if dict_contains k (cache s) then s\<lparr>cache := dict_del k (cache s)\<rparr> else s)"

text \<open>\<open>LRUPolicy.get\<close>\<close>

definition lru_get :: "key \<Rightarrow> eviction_policy \<Rightarrow> val option \<times> eviction_policy" where
  "lru_get k s =
     (if dict_contains k (cache s)
      then (let c = move_to_end k (cache s) in (map_of c k, s\<lparr>cache := c\<rparr>))
      else (None, s))"

text \<open>
  \<open>LRUPolicy.put\<close>: the \<open>if\<close>/\<open>elif\<close> of the source, then the unconditional
  \<open>self.cache[key] = value\<close>. The only raise (\<open>popitem\<close>) comes before any
  mutation, so a raising call leaves the policy as it was.
\<close>

definition lru_put_branch :: "key \<Rightarrow> eviction_policy \<Rightarrow> error + eviction_policy" where
  "lru_put_branch k s =
     (if dict_contains k (cache s) then Inr (s\<lparr>cache := move_to_end k (cache s)\<rparr>)
      else if psize s \<le> int (length (cache s)) then
        (case popitem_first (cache s) of
           Inl e \<Rightarrow> Inl e
         | Inr c \<Rightarrow> Inr (s\<lparr>cache := c\<rparr>))
      else Inr s)"

definition lru_put :: "key \<Rightarrow> val \<Rightarrow> eviction_policy \<Rightarrow> error + eviction_policy" where
  "lru_put k v s =
     (case lru_put_branch k s of
        Inl e \<Rightarrow> Inl e
      | Inr s1 \<Rightarrow> Inr (s1\<lparr>cache := dict_set k v (cache s1)\<rparr>))"

text \<open>\<open>LFUPolicy.get\<close>\<close>

definition lfu_get :: "key \<Rightarrow> lfu_policy \<Rightarrow> val option \<times> lfu_policy" where
  "lfu_get k s =
     (if dict_contains k (cache s)
      then (map_of (cache s) k, s\<lparr>frequency := counter_incr k (frequency s)\<rparr>)
      else (None, s))"

text \<open>
  \<open>LFUPolicy.put\<close>: again the branch first, then the two unconditional assignments.
  Both raises of the eviction branch (\<open>min\<close>, \<open>self.cache.pop\<close>) come before any
  mutation.
\<close>

definition lfu_put_branch :: "key \<Rightarrow> val \<Rightarrow> lfu_policy \<Rightarrow> error + lfu_policy" where
  "lfu_put_branch k v s =
     (if dict_contains k (cache s)
      then Inr (s\<lparr>cache := dict_set k v (cache s), frequency := counter_incr k (frequency s)\<rparr>)
      else if psize s \<le> int (length (cache s)) then
        (case min_key (frequency s) of
           None \<Rightarrow> Inl ValueError
         | Some lfu_key \<Rightarrow>
             (case dict_pop lfu_key (cache s) of
                Inl e \<Rightarrow> Inl e
              | Inr c \<Rightarrow> Inr (s\<lparr>cache := c, frequency := counter_del lfu_key (frequency s)\<rparr>)))
      else Inr s)"

definition lfu_put :: "key \<Rightarrow> val \<Rightarrow> lfu_policy \<Rightarrow> error + lfu_policy" where
  "lfu_put k v s =
     (case lfu_put_branch k v s of
        Inl e \<Rightarrow> Inl e
      | Inr s1 \<Rightarrow> Inr (s1\<lparr>cache := dict_set k v (cache s1), frequency := dict_set k 1 (frequency s1)\<rparr>))"

text \<open>Constructors: \<open>LRUPolicy(size)\<close> and \<open>LFUPolicy(size)\<close>, with no validation.\<close>

definition new_lru :: "int \<Rightarrow> eviction_policy" where
  "new_lru n = \<lparr>psize = n, cache = []\<rparr>"

definition new_lfu :: "int \<Rightarrow> lfu_policy" where
  "new_lfu n = \<lparr>psize = n, cache = [], frequency = []\<rparr>"

subsection \<open>Tiers and request sequences\<close>

text \<open>
  A cache level is an instance of one of the two concrete policies; the methods are
  dispatched on the class.
\<close>

datatype tier = LRU eviction_policy | LFU lfu_policy

fun tier_get :: "key \<Rightarrow> tier \<Rightarrow> val option \<times> tier" where
  "tier_get k (LRU s) = (case lru_get k s of (r, s') \<Rightarrow> (r, LRU s'))"
| "tier_get k (LFU s) = (case lfu_get k s of (r, s') \<Rightarrow> (r, LFU s'))"

fun tier_put :: "key \<Rightarrow> val \<Rightarrow> tier \<Rightarrow> error + tier" where
  "tier_put k v (LRU s) = (case lru_put k v s of Inl e \<Rightarrow> Inl e | Inr s' \<Rightarrow> Inr (LRU s'))"
| "tier_put k v (LFU s) = (case lfu_put k v s of Inl e \<Rightarrow> Inl e | Inr s' \<Rightarrow> Inr (LFU s'))"

fun tier_remove :: "key \<Rightarrow> tier \<Rightarrow> tier" where
  "tier_remove k (LRU s) = LRU (policy_remove k s)"
| "tier_remove k (LFU s) = LFU (policy_remove k s)"

fun tier_cache :: "tier \<Rightarrow> (key \<times> val) list" where
  "tier_cache (LRU s) = cache s"
| "tier_cache (LFU s) = cache s"

fun tier_size :: "tier \<Rightarrow> int" where
  "tier_size (LRU s) = psize s"
| "tier_size (LFU s) = psize s"

text \<open>
  A caller's sequence of calls on one policy object. A \<open>put\<close> that raises leaves the
  object as it was (see \<open>lru_put\<close> and \<open>lfu_put\<close>), and the caller goes on with it.
\<close>

datatype request = Get key | Put key val | Remove key

fun request_key :: "request \<Rightarrow> key" where
  "request_key (Get k) = k"
| "request_key (Put k v) = k"
| "request_key (Remove k) = k"

fun lru_step :: "request \<Rightarrow> eviction_policy \<Rightarrow> eviction_policy" where
  "lru_step (Get k) s = snd (lru_get k s)"
| "lru_step (Put k v) s = (case lru_put k v s of Inl e \<Rightarrow> s | Inr s' \<Rightarrow> s')"
| "lru_step (Remove k) s = policy_remove k s"

fun tier_step :: "request \<Rightarrow> tier \<Rightarrow> tier" where
  "tier_step (Get k) t = snd (tier_get k t)"
| "tier_step (Put k v) t = (case tier_put k v t of Inl e \<Rightarrow> t | Inr t' \<Rightarrow> t')"
| "tier_step (Remove k) t = tier_remove k t"

text \<open>A run of \<open>put\<close> calls that stops at the first exception.\<close>

fun lru_put_all :: "(key \<times> val) list \<Rightarrow> eviction_policy \<Rightarrow> error + eviction_policy" where
  "lru_put_all [] s = Inr s"
| "lru_put_all (p # ps) s =
     (case lru_put (fst p) (snd p) s of Inl e \<Rightarrow> Inl e | Inr s' \<Rightarrow> lru_put_all ps s')"

text \<open>\<open>j\<close> comes before \<open>k\<close> in a list of keys: \<open>j\<close> is the older entry.\<close>

definition older :: "key \<Rightarrow> key \<Rightarrow> key list \<Rightarrow> bool" where
  "older j k ks = (k \<in> set (drop 1 (dropWhile (\<lambda>x. x \<noteq> j) ks)))"

text \<open>
  \<open>k\<close> outlasts \<open>j\<close> in a recency policy: as long as \<open>j\<close> is held, \<open>k\<close> is held
  too and \<open>j\<close> is the older of the two, so \<open>j\<close> reaches the head first.
\<close>

definition outlasts :: "key \<Rightarrow> key \<Rightarrow> eviction_policy \<Rightarrow> bool" where
  "outlasts k j s =
     (distinct (dict_keys (cache s))
      \<and> (dict_contains j (cache s) \<longrightarrow> older j k (dict_keys (cache s))))"

subsection \<open>The multilevel cache\<close>

text \<open>
  \<open>MultilevelCacheSystem\<close> holds the list \<open>levels\<close>; every level is a policy object of
  its own (each \<open>addCacheLevel\<close> constructs a fresh one), so the list of their states is
  the whole state. The locks serialise the calls and are not modelled. A method either
  returns a result or raises; in both cases the levels may have been mutated, so both
  outcomes carry the levels as they are when control goes back to the caller.
\<close>

datatype 'a outcome = Raised error "tier list" | Returned 'a "tier list"

fun prepend :: "tier \<Rightarrow> 'a outcome \<Rightarrow> 'a outcome" where
  "prepend t (Raised e ts) = Raised e (t # ts)"
| "prepend t (Returned x ts) = Returned x (t # ts)"

text \<open>
  The loop of \<open>_move_up\<close> over the levels of index 1 and above, as a recursion on that
  part of the list. A hit mutates the level (\<open>get\<close>), then the key is removed and put
  back; when that \<open>put\<close> raises, the level stays as \<open>remove\<close> left it and the
  later levels are not visited.
\<close>

fun refresh :: "key \<Rightarrow> val \<Rightarrow> tier list \<Rightarrow> unit outcome" where
  "refresh k v [] = Returned () []"
| "refresh k v (t # ts) =
     (case tier_get k t of
        (None, t1) \<Rightarrow> prepend t1 (refresh k v ts)
      | (Some x, t1) \<Rightarrow>
          (case tier_put k v (tier_remove k t1) of
             Inl e \<Rightarrow> Raised e (tier_remove k t1 # ts)
           | Inr t2 \<Rightarrow> prepend t2 (refresh k v ts)))"

text \<open>
  What one iteration of that loop leaves in the level it visits; \<open>refresh\<close> maps
  this over the levels as long as no \<open>put\<close> raises (lemma \<open>refresh_bounded\<close>).
\<close>

definition refresh_level :: "key \<Rightarrow> val \<Rightarrow> tier \<Rightarrow> tier" where
  "refresh_level k v t =
     (case tier_get k t of
        (None, t1) \<Rightarrow> t1
      | (Some x, t1) \<Rightarrow>
          (case tier_put k v (tier_remove k t1) of
             Inl e \<Rightarrow> tier_remove k t1
           | Inr t2 \<Rightarrow> t2))"

text \<open>\<open>_move_up\<close>: \<open>range(1, len(self.levels))\<close> skips level 0 and is empty without levels.\<close>

definition move_up :: "key \<Rightarrow> val \<Rightarrow> tier list \<Rightarrow> unit outcome" where
  "move_up k v levels =
     (case levels of [] \<Rightarrow> Returned () [] | t0 # rest \<Rightarrow> prepend t0 (refresh k v rest))"

text \<open>
  The scan of \<open>MultilevelCacheSystem.get\<close>: the levels are asked in order, and the first
  one that answers ends the scan.
\<close>

fun scan :: "key \<Rightarrow> tier list \<Rightarrow> val option \<times> tier list" where
  "scan k [] = (None, [])"
| "scan k (t # ts) =
     (case tier_get k t of
        (Some x, t1) \<Rightarrow> (Some x, t1 # ts)
      | (None, t1) \<Rightarrow> (case scan k ts of (r, ts') \<Rightarrow> (r, t1 # ts')))"

definition mcs_get :: "key \<Rightarrow> tier list \<Rightarrow> val option outcome" where
  "mcs_get k levels =
     (case scan k levels of
        (None, ls) \<Rightarrow> Returned None ls
      | (Some x, ls) \<Rightarrow>
          (case move_up k x ls of
             Raised e ls' \<Rightarrow> Raised e ls'
           | Returned u ls' \<Rightarrow> Returned (Some x) ls'))"

text \<open>\<open>MultilevelCacheSystem.put\<close>: \<open>self.levels[0]\<close> raises \<open>IndexError\<close> without levels.\<close>

definition mcs_put :: "key \<Rightarrow> val \<Rightarrow> tier list \<Rightarrow> unit outcome" where
  "mcs_put k v levels =
     (case levels of
        [] \<Rightarrow> Raised IndexError []
      | t0 # rest \<Rightarrow>
          (case tier_put k v t0 of
             Inl e \<Rightarrow> Raised e levels
           | Inr t1 \<Rightarrow> move_up k v (t1 # rest)))"

definition addCacheLevel :: "int \<Rightarrow> string \<Rightarrow> tier list \<Rightarrow> unit outcome" where
  "addCacheLevel n evictionPolicy levels =
     (if evictionPolicy = ''LRU'' then Returned () (levels @ [LRU (new_lru n)])
      else if evictionPolicy = ''LFU'' then Returned () (levels @ [LFU (new_lfu n)])
      else Raised ValueError levels)"

text \<open>\<open>self.levels.pop(level)\<close> under the guard \<open>0 <= level < len(self.levels)\<close>.\<close>

definition removeCacheLevel :: "int \<Rightarrow> tier list \<Rightarrow> unit outcome" where
  "removeCacheLevel level levels =
     (if 0 \<le> level \<and> level < int (length levels)
      then Returned () (take (nat level) levels @ drop (Suc (nat level)) levels)
      else Raised IndexError levels)"

text \<open>
  A client's sequence of calls on one cache system. Whether a call returns or raises, the
  client goes on with the levels as the call left them.
\<close>

fun levels_of :: "'a outcome \<Rightarrow> tier list" where
  "levels_of (Raised e ls) = ls"
| "levels_of (Returned x ls) = ls"

datatype command = AddLevel int string | RemoveLevel int | GetKey key | PutKey key val

fun mcs_step :: "command \<Rightarrow> tier list \<Rightarrow> tier list" where
  "mcs_step (AddLevel n p) ls = levels_of (addCacheLevel n p ls)"
| "mcs_step (RemoveLevel i) ls = levels_of (removeCacheLevel i ls)"
| "mcs_step (GetKey k) ls = levels_of (mcs_get k ls)"
| "mcs_step (PutKey k v) ls = levels_of (mcs_put k v ls)"

fun positive_size :: "command \<Rightarrow> bool" where
  "positive_size (AddLevel n p) = (1 \<le> n)"
| "positive_size c = True"

subsection \<open>Well-formed states\<close>

text \<open>
  The states that the methods produce from a freshly constructed policy of positive size:
  no key twice, no more entries than the size. For the frequency policy used through
  \<open>get\<close> and \<open>put\<close>, the frequency table has exactly the keys of the cache.
\<close>

definition policy_bounded :: "'a eviction_policy_scheme \<Rightarrow> bool" where
  "policy_bounded s = (distinct (dict_keys (cache s)) \<and> int (length (cache s)) \<le> psize s)"

definition lru_ok :: "eviction_policy \<Rightarrow> bool" where
  "lru_ok s = (1 \<le> psize s \<and> policy_bounded s)"

definition lfu_consistent :: "lfu_policy \<Rightarrow> bool" where
  "lfu_consistent s =
     (distinct (dict_keys (cache s)) \<and> distinct (dict_keys (frequency s))
      \<and> set (dict_keys (frequency s)) = set (dict_keys (cache s)))"

definition lfu_ok :: "lfu_policy \<Rightarrow> bool" where
  "lfu_ok s = (1 \<le> psize s \<and> policy_bounded s \<and> lfu_consistent s)"

fun tier_bounded :: "tier \<Rightarrow> bool" where
  "tier_bounded (LRU s) = policy_bounded s"
| "tier_bounded (LFU s) = policy_bounded s"

fun tier_ok :: "tier \<Rightarrow> bool" where
  "tier_ok (LRU s) = lru_ok s"
| "tier_ok (LFU s) = lfu_ok s"

section \<open>Association-list facts\<close>

lemma map_of_dict_set_same: "map_of (dict_set k v d) k = Some v"
  by (induction d) auto

lemma map_of_dict_set_other: "j \<noteq> k \<Longrightarrow> map_of (dict_set k v d) j = map_of d j"
  by (induction d) auto

lemma dict_set_absent: "k \<notin> set (dict_keys d) \<Longrightarrow> dict_set k v d = d @ [(k, v)]"
  by (induction d) (auto simp: dict_keys_def)

lemma dict_keys_dict_set:
  "dict_keys (dict_set k v d) = (if k \<in> set (dict_keys d) then dict_keys d else dict_keys d @ [k])"
  by (induction d) (auto simp: dict_keys_def)

lemma length_dict_set:
  "length (dict_set k v d) = (if k \<in> set (dict_keys d) then length d else Suc (length d))"
  by (induction d) (auto simp: dict_keys_def)

lemma dict_keys_dict_del: "dict_keys (dict_del k d) = removeAll k (dict_keys d)"
  by (induction d) (auto simp: dict_keys_def dict_del_def)

lemma dict_del_absent: "k \<notin> set (dict_keys d) \<Longrightarrow> dict_del k d = d"
  by (induction d) (auto simp: dict_keys_def dict_del_def)

lemma length_dict_del:
  "distinct (dict_keys d) \<Longrightarrow> k \<in> set (dict_keys d) \<Longrightarrow> Suc (length (dict_del k d)) = length d"
proof (induction d)
  case Nil
  then show ?case by (simp add: dict_keys_def)
next
  case (Cons p d)
  show ?case
  proof (cases "fst p = k")
    case True
    with Cons.prems have "k \<notin> set (dict_keys d)" by (simp add: dict_keys_def)
    then have "dict_del k d = d" by (rule dict_del_absent)
    with True show ?thesis by (simp add: dict_del_def)
  next
    case False
    with Cons show ?thesis by (simp add: dict_keys_def dict_del_def)
  qed
qed

lemma dict_keys_append: "dict_keys (a @ b) = dict_keys a @ dict_keys b"
  by (simp add: dict_keys_def)

lemma map_of_present: "k \<in> set (dict_keys d) \<Longrightarrow> \<exists>v. map_of d k = Some v"
  by (induction d) (auto simp: dict_keys_def)

lemma dict_keys_move_to_end:
  "k \<in> set (dict_keys d) \<Longrightarrow> dict_keys (move_to_end k d) = removeAll k (dict_keys d) @ [k]"
  using map_of_present[of k d]
  by (auto simp: move_to_end_def dict_keys_dict_del dict_keys_append split: option.splits)
     (simp add: dict_keys_def)

lemma length_move_to_end:
  assumes "distinct (dict_keys d)"
  shows "length (move_to_end k d) = length d"
proof (cases "map_of d k")
  case None
  then show ?thesis by (simp add: move_to_end_def)
next
  case (Some v)
  then have "k \<in> set (dict_keys d)"
    by (auto simp: dict_keys_def dest: map_of_SomeD intro: rev_image_eqI)
  with length_dict_del[OF assms, of k] Some show ?thesis
    by (simp add: move_to_end_def)
qed

subsection \<open>The minimum of a counter\<close>

lemma min_from_split:
  "\<exists>ys zs. b # ps = ys @ min_from b ps # zs
     \<and> (\<forall>p\<in>set ys. snd (min_from b ps) < snd p)
     \<and> (\<forall>p\<in>set zs. snd (min_from b ps) \<le> snd p)"
proof (induction ps arbitrary: b)
  case Nil
  show ?case by (rule exI[of _ "[]"]) simp
next
  case (Cons p ps)
  define c where "c = (if snd p < snd b then p else b)"
  define m where "m = min_from c ps"
  have step: "min_from b (p # ps) = m" by (simp add: m_def c_def)
  from Cons.IH[of c] obtain ys zs where
    sp: "c # ps = ys @ m # zs" and lo: "\<forall>q\<in>set ys. snd m < snd q"
    and hi: "\<forall>q\<in>set zs. snd m \<le> snd q" unfolding m_def by blast
  show ?case
  proof (cases ys)
    case Nil
    with sp have mc: "m = c" and zs: "zs = ps" by simp_all
    show ?thesis
    proof (cases "snd p < snd b")
      case True
      with mc have "m = p" by (simp add: c_def)
      with True zs hi have "b # p # ps = [b] @ m # zs \<and> (\<forall>q\<in>set [b]. snd m < snd q)
        \<and> (\<forall>q\<in>set zs. snd m \<le> snd q)" by simp
      then show ?thesis unfolding step by blast
    next
      case False
      with mc have "m = b" by (simp add: c_def)
      with False zs hi have "b # p # ps = [] @ m # (p # ps) \<and> (\<forall>q\<in>set []. snd m < snd q)
        \<and> (\<forall>q\<in>set (p # ps). snd m \<le> snd q)" by auto
      then show ?thesis unfolding step by blast
    qed
  next
    case (Cons y ys')
    with sp have y: "y = c" and ps: "ps = ys' @ m # zs" by simp_all
    from lo Cons y have lt: "snd m < snd c" by simp
    have "snd m < snd b" "snd m < snd p" using lt by (auto simp: c_def split: if_splits)
    with lo Cons ps hi have "b # p # ps = (b # p # ys') @ m # zs
        \<and> (\<forall>q\<in>set (b # p # ys'). snd m < snd q)
        \<and> (\<forall>q\<in>set zs. snd m \<le> snd q)" by auto
    then show ?thesis unfolding step by blast
  qed
qed

lemma map_of_distinct_mid:
  "distinct (dict_keys (ys @ (k, n) # zs)) \<Longrightarrow> map_of (ys @ (k, n) # zs) k = Some n"
  by (induction ys) (auto simp: dict_keys_def)

lemma map_of_dict_del_other: "j \<noteq> k \<Longrightarrow> map_of (dict_del k d) j = map_of d j"
  by (induction d) (auto simp: dict_del_def)

lemma map_of_distinct_in:
  "distinct (dict_keys d) \<Longrightarrow> (k, n) \<in> set d \<Longrightarrow> map_of d k = Some n"
  by (simp add: dict_keys_def)

section \<open>What \<open>remove\<close> does to the cache\<close>

lemma policy_remove_absent: "\<not> dict_contains k (cache s) \<Longrightarrow> policy_remove k s = s"
  by (simp add: policy_remove_def)

lemma policy_remove_cache: "cache (policy_remove k s) = dict_del k (cache s)"
  by (simp add: policy_remove_def dict_contains_def dict_del_absent)

lemma policy_remove_gone: "\<not> dict_contains k (cache (policy_remove k s))"
  by (simp add: policy_remove_cache dict_contains_def dict_keys_dict_del)

lemma policy_remove_others:
  "j \<noteq> k \<Longrightarrow> map_of (cache (policy_remove k s)) j = map_of (cache s) j"
  by (simp add: policy_remove_cache map_of_dict_del_other)

section \<open>Eviction from a consistent frequency policy\<close>

lemma lfu_put_evicts_min:
  assumes con: "lfu_consistent s" and pos: "1 \<le> psize s"
    and full: "psize s \<le> int (length (cache s))" and new: "\<not> dict_contains k (cache s)"
  shows "\<exists>e ys zs. min_key (frequency s) = Some e
      \<and> frequency s = ys @ (e, counter_get (frequency s) e) # zs
      \<and> (\<forall>p\<in>set ys. counter_get (frequency s) e < snd p)
      \<and> (\<forall>p\<in>set zs. counter_get (frequency s) e \<le> snd p)
      \<and> dict_contains e (cache s)
      \<and> lfu_put k v s = Inr (s\<lparr>cache := dict_del e (cache s) @ [(k, v)],
                                frequency := dict_del e (frequency s) @ [(k, 1)]\<rparr>)"
proof -
  from pos full have "cache s \<noteq> []" by auto
  then have "set (dict_keys (cache s)) \<noteq> {}" by (simp add: dict_keys_def)
  with con have "frequency s \<noteq> []" by (auto simp: lfu_consistent_def dict_keys_def)
  then obtain p ps where f: "frequency s = p # ps" by (cases "frequency s") auto
  define m where "m = min_from p ps"
  from min_from_split[of p ps] obtain ys zs where
    sp: "p # ps = ys @ m # zs" and lo: "\<forall>q\<in>set ys. snd m < snd q"
    and hi: "\<forall>q\<in>set zs. snd m \<le> snd q" unfolding m_def by blast
  have mk: "min_key (frequency s) = Some (fst m)" by (simp add: min_key_def f m_def)
  have fs: "frequency s = ys @ (fst m, snd m) # zs" using f sp by simp
  from con have "distinct (dict_keys (ys @ (fst m, snd m) # zs))"
    using fs by (simp add: lfu_consistent_def)
  then have "map_of (frequency s) (fst m) = Some (snd m)"
    unfolding fs by (rule map_of_distinct_mid)
  then have cg: "counter_get (frequency s) (fst m) = snd m" by (simp add: counter_get_def)
  have "fst m \<in> set (dict_keys (frequency s))" unfolding fs by (simp add: dict_keys_def)
  with con have inc: "dict_contains (fst m) (cache s)"
    by (simp add: lfu_consistent_def dict_contains_def)
  from new have k1: "k \<notin> set (dict_keys (dict_del (fst m) (cache s)))"
    by (simp add: dict_contains_def dict_keys_dict_del)
  from new con have k2: "k \<notin> set (dict_keys (dict_del (fst m) (frequency s)))"
    by (simp add: dict_contains_def dict_keys_dict_del lfu_consistent_def)
  have put: "lfu_put k v s = Inr (s\<lparr>cache := dict_del (fst m) (cache s) @ [(k, v)],
                                frequency := dict_del (fst m) (frequency s) @ [(k, 1)]\<rparr>)"
    using new full mk inc k1 k2
    by (simp add: lfu_put_def lfu_put_branch_def dict_pop_def counter_del_def dict_set_absent)
  have "min_key (frequency s) = Some (fst m)
      \<and> frequency s = ys @ (fst m, counter_get (frequency s) (fst m)) # zs
      \<and> (\<forall>p\<in>set ys. counter_get (frequency s) (fst m) < snd p)
      \<and> (\<forall>p\<in>set zs. counter_get (frequency s) (fst m) \<le> snd p)
      \<and> dict_contains (fst m) (cache s)
      \<and> lfu_put k v s = Inr (s\<lparr>cache := dict_del (fst m) (cache s) @ [(k, v)],
                                frequency := dict_del (fst m) (frequency s) @ [(k, 1)]\<rparr>)"
    unfolding cg using mk fs lo hi inc put by blast
  then show ?thesis by blast
qed

lemma lfu_put_evicts_least:
  assumes con: "lfu_consistent s" and pos: "1 \<le> psize s"
    and full: "psize s \<le> int (length (cache s))" and new: "\<not> dict_contains k (cache s)"
    and e: "min_key (frequency s) = Some e" and j: "dict_contains j (cache s)"
  shows "counter_get (frequency s) e \<le> counter_get (frequency s) j"
proof -
  from lfu_put_evicts_min[OF con pos full new, of "undefined"] e obtain ys zs where
    fs: "frequency s = ys @ (e, counter_get (frequency s) e) # zs"
    and lo: "\<forall>p\<in>set ys. counter_get (frequency s) e < snd p"
    and hi: "\<forall>p\<in>set zs. counter_get (frequency s) e \<le> snd p" by auto
  from j con have "j \<in> set (dict_keys (frequency s))"
    by (simp add: dict_contains_def lfu_consistent_def)
  then obtain n where n: "(j, n) \<in> set (frequency s)" by (auto simp: dict_keys_def)
  with con have "map_of (frequency s) j = Some n"
    by (simp add: lfu_consistent_def map_of_distinct_in)
  then have cj: "counter_get (frequency s) j = n" by (simp add: counter_get_def)
  from n have "(j, n) \<in> set ys \<or> (j, n) = (e, counter_get (frequency s) e) \<or> (j, n) \<in> set zs"
    by (subst (asm) fs) auto
  with lo hi cj show ?thesis by force
qed

section \<open>Boundedness is kept by every method\<close>

lemma distinct_dict_del: "distinct (dict_keys d) \<Longrightarrow> distinct (dict_keys (dict_del k d))"
  by (simp add: dict_keys_dict_del distinct_removeAll)

lemma length_dict_del_le: "length (dict_del k d) \<le> length d"
  by (simp add: dict_del_def)

lemma distinct_dict_set: "distinct (dict_keys d) \<Longrightarrow> distinct (dict_keys (dict_set k v d))"
  by (simp add: dict_keys_dict_set)

lemma distinct_move_to_end:
  "distinct (dict_keys d) \<Longrightarrow> distinct (dict_keys (move_to_end k d))"
proof (cases "k \<in> set (dict_keys d)")
  case True
  assume "distinct (dict_keys d)"
  with True show ?thesis by (simp add: dict_keys_move_to_end distinct_removeAll)
next
  case False
  assume d: "distinct (dict_keys d)"
  from False have "map_of d k = None" by (simp add: map_of_eq_None_iff dict_keys_def)
  with d show ?thesis by (simp add: move_to_end_def)
qed

lemma move_to_end_keeps_key:
  "k \<in> set (dict_keys d) \<Longrightarrow> k \<in> set (dict_keys (move_to_end k d))"
  by (simp add: dict_keys_move_to_end)

lemma policy_remove_bounded:
  "policy_bounded s \<Longrightarrow> policy_bounded (policy_remove k s) \<and> psize (policy_remove k s) = psize s"
  using length_dict_del_le[of k "cache s"]
  by (auto simp: policy_bounded_def policy_remove_def distinct_dict_del)

lemma lru_get_bounded:
  "policy_bounded s \<Longrightarrow> policy_bounded (snd (lru_get k s)) \<and> psize (snd (lru_get k s)) = psize s"
  by (auto simp: policy_bounded_def lru_get_def Let_def distinct_move_to_end length_move_to_end)

lemma lfu_get_bounded:
  "policy_bounded s \<Longrightarrow> policy_bounded (snd (lfu_get k s)) \<and> psize (snd (lfu_get k s)) = psize s"
  by (auto simp: policy_bounded_def lfu_get_def)

lemma lru_put_bounded:
  assumes "policy_bounded s" and "lru_put k v s = Inr s'"
  shows "policy_bounded s' \<and> psize s' = psize s"
proof (cases "dict_contains k (cache s)")
  case True
  with assms show ?thesis
    by (auto simp: lru_put_def lru_put_branch_def policy_bounded_def dict_contains_def
        distinct_dict_set distinct_move_to_end length_dict_set length_move_to_end
        move_to_end_keeps_key)
next
  case False
  show ?thesis
  proof (cases "psize s \<le> int (length (cache s))")
    case True
    with False assms obtain p ps where c: "cache s = p # ps"
      and s': "s' = s\<lparr>cache := dict_set k v ps\<rparr>"
      by (auto simp: lru_put_def lru_put_branch_def popitem_first_def split: list.splits)
    from False c have "k \<notin> set (dict_keys ps)" by (simp add: dict_contains_def dict_keys_def)
    with assms(1) c s' show ?thesis
      by (simp add: policy_bounded_def dict_set_absent dict_keys_def)
  next
    case nf: False
    with False assms have s': "s' = s\<lparr>cache := dict_set k v (cache s)\<rparr>"
      by (auto simp: lru_put_def lru_put_branch_def)
    from False assms(1) nf show ?thesis unfolding s'
      by (simp add: policy_bounded_def dict_contains_def dict_set_absent dict_keys_def)
  qed
qed

lemma lfu_put_bounded:
  assumes "policy_bounded s" and "lfu_put k v s = Inr s'"
  shows "policy_bounded s' \<and> psize s' = psize s"
proof (cases "dict_contains k (cache s)")
  case True
  with assms show ?thesis
    by (auto simp: lfu_put_def lfu_put_branch_def policy_bounded_def dict_contains_def
        distinct_dict_set length_dict_set dict_keys_dict_set)
next
  case False
  show ?thesis
  proof (cases "psize s \<le> int (length (cache s))")
    case True
    with False assms obtain e where e: "dict_contains e (cache s)"
      and s': "cache s' = dict_set k v (dict_del e (cache s))" "psize s' = psize s"
      by (auto simp: lfu_put_def lfu_put_branch_def dict_pop_def
          split: option.splits if_splits)
    from False have k: "k \<notin> set (dict_keys (dict_del e (cache s)))"
      by (simp add: dict_contains_def dict_keys_dict_del)
    from assms(1) e have "Suc (length (dict_del e (cache s))) = length (cache s)"
      by (simp add: policy_bounded_def dict_contains_def length_dict_del)
    with assms(1) k s' show ?thesis
      by (simp add: policy_bounded_def length_dict_set distinct_dict_set distinct_dict_del)
  next
    case nf: False
    with False assms have s': "cache s' = dict_set k v (cache s)" "psize s' = psize s"
      by (auto simp: lfu_put_def lfu_put_branch_def)
    from False assms(1) nf s' show ?thesis
      by (simp add: policy_bounded_def dict_contains_def length_dict_set distinct_dict_set)
  qed
qed

lemma snd_tier_get:
  "snd (tier_get k (LRU s)) = LRU (snd (lru_get k s))"
  "snd (tier_get k (LFU f)) = LFU (snd (lfu_get k f))"
  by (simp_all add: case_prod_unfold)

lemma fst_tier_get:
  "fst (tier_get k (LRU s)) = fst (lru_get k s)"
  "fst (tier_get k (LFU f)) = fst (lfu_get k f)"
  by (simp_all add: case_prod_unfold)

lemma tier_step_bounded:
  "tier_bounded t \<Longrightarrow> tier_bounded (tier_step r t) \<and> tier_size (tier_step r t) = tier_size t"
proof (cases t)
  case (LRU s)
  assume "tier_bounded t"
  with LRU have b: "policy_bounded s" by simp
  show ?thesis
  proof (cases r)
    case (Get k)
    with LRU lru_get_bounded[OF b, of k] show ?thesis by (simp add: snd_tier_get del: tier_get.simps)
  next
    case (Put k v)
    show ?thesis
    proof (cases "lru_put k v s")
      case (Inl e)
      with Put LRU b show ?thesis by simp
    next
      case (Inr s')
      with Put LRU lru_put_bounded[OF b Inr] show ?thesis by simp
    qed
  next
    case (Remove k)
    with LRU policy_remove_bounded[OF b, of k] show ?thesis by simp
  qed
next
  case (LFU s)
  assume "tier_bounded t"
  with LFU have b: "policy_bounded s" by simp
  show ?thesis
  proof (cases r)
    case (Get k)
    with LFU lfu_get_bounded[OF b, of k] show ?thesis by (simp add: snd_tier_get del: tier_get.simps)
  next
    case (Put k v)
    show ?thesis
    proof (cases "lfu_put k v s")
      case (Inl e)
      with Put LFU b show ?thesis by simp
    next
      case (Inr s')
      with Put LFU lfu_put_bounded[OF b Inr] show ?thesis by simp
    qed
  next
    case (Remove k)
    with LFU policy_remove_bounded[OF b, of k] show ?thesis by simp
  qed
qed

lemma fold_tier_step_bounded:
  "tier_bounded t \<Longrightarrow>
     tier_bounded (fold tier_step rs t) \<and> tier_size (fold tier_step rs t) = tier_size t"
proof (induction rs arbitrary: t)
  case Nil
  then show ?case by simp
next
  case (Cons r rs)
  from tier_step_bounded[OF Cons.prems, of r] Cons.IH[of "tier_step r t"]
  show ?case by simp
qed

section \<open>Popping a level\<close>

lemma removeCacheLevel_shape:
  assumes "0 \<le> level" and "level < int (length levels)"
  shows "removeCacheLevel level levels
           = Returned () (take (nat level) levels @ drop (Suc (nat level)) levels)"
  using assms by (simp add: removeCacheLevel_def)

lemma nth_remove_below:
  "i < n \<Longrightarrow> n < length xs \<Longrightarrow> (take n xs @ drop (Suc n) xs) ! i = xs ! i"
  by (simp add: nth_append)

lemma nth_remove_above:
  "n < i \<Longrightarrow> i < length xs \<Longrightarrow> (take n xs @ drop (Suc n) xs) ! (i - 1) = xs ! i"
proof -
  assume a: "n < i" "i < length xs"
  then have "\<not> i - 1 < n" and "Suc n + (i - 1 - n) = i" by arith+
  with a show ?thesis by (simp add: nth_append min_def)
qed

section \<open>Puts into a recency policy\<close>

lemma lru_put_new:
  assumes "\<not> dict_contains k (cache s)"
  shows "lru_put k v s =
     (if psize s \<le> int (length (cache s))
      then (case cache s of [] \<Rightarrow> Inl KeyError | p # ps \<Rightarrow> Inr (s\<lparr>cache := ps @ [(k, v)]\<rparr>))
      else Inr (s\<lparr>cache := cache s @ [(k, v)]\<rparr>))"
proof (cases "cache s")
  case Nil
  with assms show ?thesis
    by (simp add: lru_put_def lru_put_branch_def popitem_first_def)
next
  case (Cons p ps)
  from assms have whole: "dict_set k v (cache s) = cache s @ [(k, v)]"
    by (simp add: dict_contains_def dict_set_absent)
  from assms Cons have "k \<notin> set (dict_keys ps)"
    by (simp add: dict_contains_def dict_keys_def)
  then have rest: "dict_set k v ps = ps @ [(k, v)]" by (rule dict_set_absent)
  show ?thesis
  proof (cases "psize s \<le> int (length (cache s))")
    case True
    with assms Cons rest show ?thesis
      by (simp add: lru_put_def lru_put_branch_def popitem_first_def)
  next
    case False
    with assms whole show ?thesis
      by (simp add: lru_put_def lru_put_branch_def)
  qed
qed

lemma map_of_dict_del_same: "map_of (dict_del k d) k = None"
  by (induction d) (simp_all add: dict_del_def)

lemma lru_put_all_fresh:
  assumes "1 \<le> N"
  shows "length c \<le> N \<Longrightarrow> distinct (dict_keys (c @ kvs)) \<Longrightarrow>
     lru_put_all kvs \<lparr>psize = int N, cache = c\<rparr>
       = Inr \<lparr>psize = int N, cache = drop (length c + length kvs - N) (c @ kvs)\<rparr>"
proof (induction kvs arbitrary: c)
  case Nil
  then show ?case by simp
next
  case (Cons p kvs)
  obtain k v where p: "p = (k, v)" by (cases p)
  from Cons.prems p have new: "\<not> dict_contains k (cache \<lparr>psize = int N, cache = c\<rparr>)"
    by (auto simp: dict_contains_def dict_keys_def)
  show ?case
  proof (cases "N \<le> length c")
    case True
    with Cons.prems assms have len: "length c = N" and ne: "c \<noteq> []" by auto
    then obtain q qs where c: "c = q # qs" by (cases c) auto
    have step: "lru_put (fst p) (snd p) \<lparr>psize = int N, cache = c\<rparr>
        = Inr \<lparr>psize = int N, cache = qs @ [(k, v)]\<rparr>"
      using lru_put_new[OF new, of v] len c p by simp
    have l: "length (qs @ [(k, v)]) \<le> N" using len c by simp
    have d: "distinct (dict_keys ((qs @ [(k, v)]) @ kvs))"
      using Cons.prems(2) c p by (simp add: dict_keys_def)
    have "drop (length (qs @ [(k, v)]) + length kvs - N) ((qs @ [(k, v)]) @ kvs)
        = drop (length c + length (p # kvs) - N) (c @ p # kvs)"
      using len c p by simp
    with Cons.IH[OF l d] step show ?thesis by simp
  next
    case False
    have step: "lru_put (fst p) (snd p) \<lparr>psize = int N, cache = c\<rparr>
        = Inr \<lparr>psize = int N, cache = c @ [(k, v)]\<rparr>"
      using lru_put_new[OF new, of v] False p by simp
    have l: "length (c @ [(k, v)]) \<le> N" using False by simp
    have d: "distinct (dict_keys ((c @ [(k, v)]) @ kvs))"
      using Cons.prems(2) p by simp
    have "drop (length (c @ [(k, v)]) + length kvs - N) ((c @ [(k, v)]) @ kvs)
        = drop (length c + length (p # kvs) - N) (c @ p # kvs)"
      using p by simp
    with Cons.IH[OF l d] step show ?thesis by simp
  qed
qed

lemma lru_put_all_one_more:
  assumes "1 \<le> N" and "distinct (map fst kvs)" and "length kvs = Suc N"
  shows "lru_put_all kvs (new_lru (int N)) = Inr \<lparr>psize = int N, cache = tl kvs\<rparr>"
proof -
  from assms(2) have "distinct (dict_keys ([] @ kvs))" by (simp add: dict_keys_def)
  from lru_put_all_fresh[OF assms(1) _ this] assms(3)
  show ?thesis by (simp add: new_lru_def drop_Suc)
qed

lemma lru_get_present:
  assumes "map_of (cache s) k = Some v"
  shows "lru_get k s = (Some v, s\<lparr>cache := dict_del k (cache s) @ [(k, v)]\<rparr>)"
proof -
  from assms have "k \<in> set (dict_keys (cache s))"
    by (auto simp: dict_keys_def dest: map_of_SomeD intro: rev_image_eqI)
  moreover have "map_of (dict_del k (cache s) @ [(k, v)]) k = Some v"
    by (simp add: map_add_Some_iff map_of_dict_del_same)
  ultimately show ?thesis using assms
    by (simp add: lru_get_def dict_contains_def move_to_end_def Let_def)
qed

lemma lru_put_at_capacity:
  assumes "1 \<le> psize s" and "psize s \<le> int (length (cache s))"
    and "\<not> dict_contains k (cache s)"
  shows "lru_put k v s = Inr (s\<lparr>cache := tl (cache s) @ [(k, v)]\<rparr>)"
proof -
  from assms(1,2) obtain p ps where "cache s = p # ps" by (cases "cache s") auto
  with lru_put_new[OF assms(3), of v] assms(2) show ?thesis by simp
qed

section \<open>The order of recency\<close>

lemma older_iff:
  "older j k ks = (\<exists>ys zs. ks = ys @ j # zs \<and> j \<notin> set ys \<and> k \<in> set zs)"
proof
  assume o: "older j k ks"
  let ?P = "\<lambda>x. x \<noteq> j"
  have ne: "dropWhile ?P ks \<noteq> []"
  proof
    assume e: "dropWhile ?P ks = []"
    from o show False unfolding older_def e by simp
  qed
  then have "hd (dropWhile ?P ks) = j" using hd_dropWhile[of ?P ks] by simp
  with ne obtain zs where dz: "dropWhile ?P ks = j # zs" by (cases "dropWhile ?P ks") auto
  have "ks = takeWhile ?P ks @ dropWhile ?P ks" by simp
  with dz have "ks = takeWhile ?P ks @ j # zs" by simp
  moreover have "j \<notin> set (takeWhile ?P ks)" by (auto dest: set_takeWhileD)
  moreover from o dz have "k \<in> set zs" by (simp add: older_def)
  ultimately show "\<exists>ys zs. ks = ys @ j # zs \<and> j \<notin> set ys \<and> k \<in> set zs" by blast
next
  assume "\<exists>ys zs. ks = ys @ j # zs \<and> j \<notin> set ys \<and> k \<in> set zs"
  then obtain ys zs where ks: "ks = ys @ j # zs" and j: "j \<notin> set ys" and k: "k \<in> set zs"
    by blast
  from j have "dropWhile (\<lambda>x. x \<noteq> j) (ys @ j # zs) = dropWhile (\<lambda>x. x \<noteq> j) (j # zs)"
    by (intro dropWhile_append2) auto
  with ks k show "older j k ks" by (simp add: older_def)
qed

lemma older_present: "older j k ks \<Longrightarrow> j \<in> set ks \<and> k \<in> set ks"
  by (auto simp: older_iff)

lemma older_append: "older j k ks \<Longrightarrow> older j k (ks @ xs)"
  unfolding older_iff
proof -
  assume "\<exists>ys zs. ks = ys @ j # zs \<and> j \<notin> set ys \<and> k \<in> set zs"
  then obtain ys zs where "ks = ys @ j # zs" "j \<notin> set ys" "k \<in> set zs" by blast
  then have "ks @ xs = ys @ j # (zs @ xs) \<and> j \<notin> set ys \<and> k \<in> set (zs @ xs)" by simp
  then show "\<exists>ys zs. ks @ xs = ys @ j # zs \<and> j \<notin> set ys \<and> k \<in> set zs" by blast
qed

lemma older_removeAll:
  "older j k ks \<Longrightarrow> x \<noteq> j \<Longrightarrow> x \<noteq> k \<Longrightarrow> older j k (removeAll x ks)"
  unfolding older_iff
proof -
  assume "\<exists>ys zs. ks = ys @ j # zs \<and> j \<notin> set ys \<and> k \<in> set zs" and x: "x \<noteq> j" "x \<noteq> k"
  then obtain ys zs where "ks = ys @ j # zs" "j \<notin> set ys" "k \<in> set zs" by blast
  with x have "removeAll x ks = removeAll x ys @ j # removeAll x zs
      \<and> j \<notin> set (removeAll x ys) \<and> k \<in> set (removeAll x zs)" by simp
  then show "\<exists>ys zs. removeAll x ks = ys @ j # zs \<and> j \<notin> set ys \<and> k \<in> set zs" by blast
qed

lemma older_tl:
  "older j k ks \<Longrightarrow> hd ks \<noteq> j \<Longrightarrow> older j k (tl ks)"
  unfolding older_iff
proof -
  assume "\<exists>ys zs. ks = ys @ j # zs \<and> j \<notin> set ys \<and> k \<in> set zs" and h: "hd ks \<noteq> j"
  then obtain ys zs where ks: "ks = ys @ j # zs" and j: "j \<notin> set ys" and k: "k \<in> set zs"
    by blast
  from ks h have "ys \<noteq> []" by (cases ys) auto
  with ks have "tl ks = tl ys @ j # zs" by simp
  moreover from j have "j \<notin> set (tl ys)" by (cases ys) auto
  ultimately show "\<exists>ys zs. tl ks = ys @ j # zs \<and> j \<notin> set ys \<and> k \<in> set zs" using k by blast
qed

lemma older_to_end:
  "j \<in> set ks \<Longrightarrow> j \<noteq> k \<Longrightarrow> older j k (removeAll k ks @ [k])"
  unfolding older_iff
proof -
  assume j: "j \<in> set ks" and ne: "j \<noteq> k"
  then have "j \<in> set (removeAll k ks)" by simp
  then obtain ys zs where sp: "removeAll k ks = ys @ j # zs" and n: "j \<notin> set ys"
    by (auto dest: split_list_first)
  then have "removeAll k ks @ [k] = ys @ j # (zs @ [k]) \<and> j \<notin> set ys \<and> k \<in> set (zs @ [k])"
    by simp
  then show "\<exists>ys zs. removeAll k ks @ [k] = ys @ j # zs \<and> j \<notin> set ys \<and> k \<in> set zs"
    by blast
qed

lemma older_move:
  assumes "older j k ks" and "x \<noteq> j"
  shows "older j k (removeAll x ks @ [x])"
proof (cases "x = k")
  case True
  with assms older_present[OF assms(1)] show ?thesis
    by (auto intro: older_to_end dest: older_present)
next
  case False
  with assms show ?thesis by (intro older_append older_removeAll)
qed

lemma removeAll_absent_append: "x \<notin> set ks \<Longrightarrow> removeAll x ks @ [x] = ks @ [x]"
  by simp

lemma lru_get_keys:
  "dict_keys (cache (snd (lru_get x s)))
     = (if x \<in> set (dict_keys (cache s)) then removeAll x (dict_keys (cache s)) @ [x]
        else dict_keys (cache s))"
  by (simp add: lru_get_def Let_def dict_contains_def dict_keys_move_to_end)

lemma lru_put_keys_present:
  assumes "x \<in> set (dict_keys (cache s))"
  shows "\<exists>s'. lru_put x v s = Inr s'
           \<and> dict_keys (cache s') = removeAll x (dict_keys (cache s)) @ [x]"
  using assms
  by (simp add: lru_put_def lru_put_branch_def dict_contains_def dict_keys_dict_set
      dict_keys_move_to_end)

lemma lru_step_shape:
  assumes "request_key r = x"
  shows "dict_keys (cache (lru_step r s)) = dict_keys (cache s)
       \<or> dict_keys (cache (lru_step r s)) = removeAll x (dict_keys (cache s)) @ [x]
       \<or> (x \<notin> set (dict_keys (cache s))
            \<and> dict_keys (cache (lru_step r s)) = tl (dict_keys (cache s)) @ [x])
       \<or> (r = Remove x
            \<and> dict_keys (cache (lru_step r s)) = removeAll x (dict_keys (cache s)))"
proof (cases r)
  case (Get y)
  with assms show ?thesis by (simp add: lru_get_keys)
next
  case (Remove y)
  with assms show ?thesis by (simp add: policy_remove_cache dict_keys_dict_del)
next
  case (Put y v)
  with assms have y: "y = x" by simp
  show ?thesis
  proof (cases "x \<in> set (dict_keys (cache s))")
    case True
    from lru_put_keys_present[OF True, of v] Put y show ?thesis by auto
  next
    case False
    then have new: "\<not> dict_contains x (cache s)" by (simp add: dict_contains_def)
    show ?thesis
    proof (cases "psize s \<le> int (length (cache s))")
      case full: True
      show ?thesis
      proof (cases "cache s")
        case Nil
        with lru_put_new[OF new, of v] full Put y show ?thesis by simp
      next
        case (Cons p ps)
        with lru_put_new[OF new, of v] full Put y False show ?thesis
          by (simp add: dict_keys_def)
      qed
    next
      case room: False
      with lru_put_new[OF new, of v] Put y False show ?thesis
        by (simp add: dict_keys_def)
    qed
  qed
qed

lemma outlasts_step:
  assumes inv: "outlasts k j s" and rj: "request_key r \<noteq> j" and rk: "r \<noteq> Remove k"
  shows "outlasts k j (lru_step r s)"
proof -
  define x where "x = request_key r"
  define ks where "ks = dict_keys (cache s)"
  define ks' where "ks' = dict_keys (cache (lru_step r s))"
  from inv have d: "distinct ks" and o: "j \<in> set ks \<Longrightarrow> older j k ks"
    by (simp_all add: outlasts_def ks_def dict_contains_def)
  from rj have xj: "x \<noteq> j" by (simp add: x_def)
  from lru_step_shape[of r x s] consider
      (same) "ks' = ks"
    | (moved) "ks' = removeAll x ks @ [x]"
    | (evict) "x \<notin> set ks" "ks' = tl ks @ [x]"
    | (removed) "r = Remove x" "ks' = removeAll x ks"
    unfolding ks_def ks'_def x_def by blast
  then have "distinct ks' \<and> (j \<in> set ks' \<longrightarrow> older j k ks')"
  proof cases
    case same
    with d o show ?thesis by simp
  next
    case moved
    have "distinct ks'" unfolding moved using d by (simp add: distinct_removeAll)
    moreover have "j \<in> set ks' \<longrightarrow> older j k ks'"
    proof
      assume "j \<in> set ks'"
      with moved xj have "j \<in> set ks" by simp
      from older_move[OF o[OF this] xj] show "older j k ks'" unfolding moved .
    qed
    ultimately show ?thesis by simp
  next
    case evict
    have "distinct ks'" unfolding evict(2) using d evict(1)
      by (cases ks) (auto simp: distinct_tl)
    moreover have "j \<in> set ks' \<longrightarrow> older j k ks'"
    proof
      assume "j \<in> set ks'"
      with evict(2) xj have jt: "j \<in> set (tl ks)" by simp
      then have jk: "j \<in> set ks" by (cases ks) auto
      from jt d have "hd ks \<noteq> j" by (cases ks) auto
      from older_append[OF older_tl[OF o[OF jk] this]] show "older j k ks'"
        unfolding evict(2) .
    qed
    ultimately show ?thesis by simp
  next
    case removed
    with rk have xk: "x \<noteq> k" by auto
    have "distinct ks'" unfolding removed(2) using d by (simp add: distinct_removeAll)
    moreover have "j \<in> set ks' \<longrightarrow> older j k ks'"
    proof
      assume "j \<in> set ks'"
      with removed(2) have "j \<in> set ks" by simp
      from older_removeAll[OF o[OF this] xj xk] show "older j k ks'" unfolding removed(2) .
    qed
    ultimately show ?thesis by simp
  qed
  then show ?thesis by (simp add: outlasts_def ks'_def dict_contains_def)
qed

lemma outlasts_fold:
  "outlasts k j s \<Longrightarrow> j \<notin> request_key ` set rs \<Longrightarrow> Remove k \<notin> set rs \<Longrightarrow>
     outlasts k j (fold lru_step rs s)"
proof (induction rs arbitrary: s)
  case Nil
  then show ?case by simp
next
  case (Cons r rs)
  from Cons.prems have "request_key r \<noteq> j" and "r \<noteq> Remove k" by auto
  from outlasts_step[OF Cons.prems(1) this] Cons.prems(2,3) Cons.IH
  show ?case by simp
qed

lemma outlasts_after_get:
  assumes "distinct (dict_keys (cache s))" and "dict_contains k (cache s)" and "j \<noteq> k"
  shows "outlasts k j (snd (lru_get k s))"
proof -
  from assms(2) have ks: "dict_keys (cache (snd (lru_get k s)))
      = removeAll k (dict_keys (cache s)) @ [k]"
    by (simp add: lru_get_keys dict_contains_def)
  have "distinct (removeAll k (dict_keys (cache s)) @ [k])"
    using assms(1) by (simp add: distinct_removeAll)
  moreover have "j \<in> set (removeAll k (dict_keys (cache s)) @ [k]) \<longrightarrow>
      older j k (removeAll k (dict_keys (cache s)) @ [k])"
    using assms(3) by (auto intro: older_to_end)
  ultimately show ?thesis by (simp add: outlasts_def dict_contains_def ks)
qed

section \<open>Hits, misses and the refresh of one level\<close>

lemma tier_get_miss: "\<not> dict_contains k (tier_cache t) \<Longrightarrow> tier_get k t = (None, t)"
  by (cases t) (simp_all add: lru_get_def lfu_get_def)

lemma map_of_move_to_end: "map_of (move_to_end k d) k = map_of d k"
  by (cases "map_of d k") (simp_all add: move_to_end_def map_add_Some_iff map_of_dict_del_same)

lemma lru_get_hit:
  assumes "dict_contains k (cache s)"
  shows "\<exists>x. map_of (cache s) k = Some x
           \<and> lru_get k s = (Some x, s\<lparr>cache := move_to_end k (cache s)\<rparr>)"
proof -
  from assms obtain x where "map_of (cache s) k = Some x"
    using map_of_present[of k "cache s"] by (auto simp: dict_contains_def)
  with assms show ?thesis
    by (simp add: lru_get_def Let_def map_of_move_to_end)
qed

lemma lfu_get_hit:
  assumes "dict_contains k (cache s)"
  shows "\<exists>x. map_of (cache s) k = Some x
           \<and> lfu_get k s = (Some x, s\<lparr>frequency := counter_incr k (frequency s)\<rparr>)"
proof -
  from assms obtain x where "map_of (cache s) k = Some x"
    using map_of_present[of k "cache s"] by (auto simp: dict_contains_def)
  with assms show ?thesis by (simp add: lfu_get_def)
qed

lemma tier_get_hit:
  assumes "dict_contains k (tier_cache t)"
  shows "\<exists>x t1. tier_get k t = (Some x, t1) \<and> map_of (tier_cache t) k = Some x
           \<and> set (dict_keys (tier_cache t1)) = set (dict_keys (tier_cache t))
           \<and> tier_size t1 = tier_size t
           \<and> (tier_bounded t \<longrightarrow> tier_bounded t1)"
proof (cases t)
  case (LRU s)
  with assms have c: "dict_contains k (cache s)" by simp
  from lru_get_hit[OF c] obtain x where x: "map_of (cache s) k = Some x"
    and g: "lru_get k s = (Some x, s\<lparr>cache := move_to_end k (cache s)\<rparr>)" by blast
  from c have "set (dict_keys (move_to_end k (cache s))) = set (dict_keys (cache s))"
    by (auto simp: dict_keys_move_to_end dict_contains_def)
  with LRU x g show ?thesis
    by (simp add: policy_bounded_def distinct_move_to_end length_move_to_end)
next
  case (LFU s)
  with assms have c: "dict_contains k (cache s)" by simp
  from lfu_get_hit[OF c] obtain x where x: "map_of (cache s) k = Some x"
    and g: "lfu_get k s = (Some x, s\<lparr>frequency := counter_incr k (frequency s)\<rparr>)" by blast
  with LFU show ?thesis by (simp add: policy_bounded_def)
qed

lemma lru_put_after_remove:
  assumes b: "policy_bounded s" and c: "dict_contains k (cache s)"
  shows "lru_put k v (policy_remove k s) = Inr (s\<lparr>cache := dict_del k (cache s) @ [(k, v)]\<rparr>)"
proof -
  let ?r = "policy_remove k s"
  have new: "\<not> dict_contains k (cache ?r)" by (rule policy_remove_gone)
  from b c have "Suc (length (dict_del k (cache s))) = length (cache s)"
    by (simp add: policy_bounded_def dict_contains_def length_dict_del)
  with b have room: "\<not> psize ?r \<le> int (length (cache ?r))"
    by (simp add: policy_remove_def policy_bounded_def c)
  from lru_put_new[OF new, of v] room c show ?thesis
    by (simp add: policy_remove_def)
qed

lemma lfu_put_after_remove:
  assumes b: "policy_bounded s" and c: "dict_contains k (cache s)"
  shows "lfu_put k v (policy_remove k s)
     = Inr (s\<lparr>cache := dict_del k (cache s) @ [(k, v)], frequency := dict_set k 1 (frequency s)\<rparr>)"
proof -
  let ?r = "policy_remove k s"
  have new: "\<not> dict_contains k (cache ?r)" by (rule policy_remove_gone)
  from b c have "Suc (length (dict_del k (cache s))) = length (cache s)"
    by (simp add: policy_bounded_def dict_contains_def length_dict_del)
  with b have room: "\<not> psize ?r \<le> int (length (cache ?r))"
    by (simp add: policy_remove_def policy_bounded_def c)
  have "k \<notin> set (dict_keys (dict_del k (cache s)))" by (simp add: dict_keys_dict_del)
  then have "dict_set k v (dict_del k (cache s)) = dict_del k (cache s) @ [(k, v)]"
    by (rule dict_set_absent)
  with new room c show ?thesis
    by (simp add: lfu_put_def lfu_put_branch_def policy_remove_def)
qed

lemma bounded_reinsert:
  assumes "policy_bounded s" and "dict_contains k (cache s)"
  shows "policy_bounded (s\<lparr>cache := dict_del k (cache s) @ [(k, v)]\<rparr>)"
proof -
  from assms have "Suc (length (dict_del k (cache s))) = length (cache s)"
    by (simp add: policy_bounded_def dict_contains_def length_dict_del)
  moreover from assms(1) have "distinct (dict_keys (dict_del k (cache s)))"
    by (simp add: policy_bounded_def distinct_dict_del)
  moreover have "k \<notin> set (dict_keys (dict_del k (cache s)))"
    by (simp add: dict_keys_dict_del)
  moreover have "dict_keys [(k, v)] = [k]" by (simp add: dict_keys_def)
  ultimately show ?thesis using assms(1)
    by (simp add: policy_bounded_def dict_keys_append)
qed

lemma dict_del_idem: "dict_del k (dict_del k d) = dict_del k d"
  by (simp add: dict_del_def)

lemma dict_del_move_to_end: "dict_del k (move_to_end k d) = dict_del k d"
  by (cases "map_of d k") (simp_all add: move_to_end_def dict_del_def)

lemma tier_put_after_remove:
  assumes "tier_bounded t" and "dict_contains k (tier_cache t)"
  shows "\<exists>t2. tier_put k v (tier_remove k t) = Inr t2
           \<and> tier_cache t2 = dict_del k (tier_cache t) @ [(k, v)]
           \<and> tier_size t2 = tier_size t \<and> tier_bounded t2"
proof (cases t)
  case (LRU s)
  with assms have b: "policy_bounded s" and c: "dict_contains k (cache s)" by simp_all
  from lru_put_after_remove[OF b c, of v] bounded_reinsert[OF b c, of v] LRU
  show ?thesis by simp
next
  case (LFU s)
  with assms have b: "policy_bounded s" and c: "dict_contains k (cache s)" by simp_all
  from bounded_reinsert[OF b c, of v]
  have "policy_bounded (s\<lparr>cache := dict_del k (cache s) @ [(k, v)],
      frequency := dict_set k 1 (frequency s)\<rparr>)"
    by (simp add: policy_bounded_def)
  with lfu_put_after_remove[OF b c, of v] LFU show ?thesis by simp
qed

lemma refresh_level_miss:
  "\<not> dict_contains k (tier_cache t) \<Longrightarrow> refresh_level k v t = t"
  by (simp add: refresh_level_def tier_get_miss)

lemma refresh_level_hit_lru:
  assumes b: "policy_bounded s" and c: "dict_contains k (cache s)"
  shows "refresh_level k v (LRU s) = LRU (s\<lparr>cache := dict_del k (cache s) @ [(k, v)]\<rparr>)"
proof -
  let ?s1 = "s\<lparr>cache := move_to_end k (cache s)\<rparr>"
  from lru_get_hit[OF c] obtain x where g: "lru_get k s = (Some x, ?s1)" by blast
  from b have b1: "policy_bounded ?s1"
    by (simp add: policy_bounded_def distinct_move_to_end length_move_to_end)
  from c have c1: "dict_contains k (cache ?s1)"
    by (simp add: dict_contains_def move_to_end_keeps_key)
  from lru_put_after_remove[OF b1 c1, of v] g show ?thesis
    by (simp add: refresh_level_def dict_del_move_to_end)
qed

lemma refresh_level_hit_lfu:
  assumes b: "policy_bounded s" and c: "dict_contains k (cache s)"
  shows "refresh_level k v (LFU s)
     = LFU (s\<lparr>cache := dict_del k (cache s) @ [(k, v)],
               frequency := dict_set k 1 (counter_incr k (frequency s))\<rparr>)"
proof -
  let ?s1 = "s\<lparr>frequency := counter_incr k (frequency s)\<rparr>"
  from lfu_get_hit[OF c] obtain x where g: "lfu_get k s = (Some x, ?s1)" by blast
  from b have b1: "policy_bounded ?s1" by (simp add: policy_bounded_def)
  from c have c1: "dict_contains k (cache ?s1)" by simp
  from lfu_put_after_remove[OF b1 c1, of v] g show ?thesis
    by (simp add: refresh_level_def)
qed

lemma refresh_level_bounded:
  assumes "tier_bounded t"
  shows "tier_bounded (refresh_level k v t) \<and> tier_size (refresh_level k v t) = tier_size t
     \<and> set (dict_keys (tier_cache (refresh_level k v t))) = set (dict_keys (tier_cache t))"
proof (cases "dict_contains k (tier_cache t)")
  case False
  with assms show ?thesis by (simp add: refresh_level_miss)
next
  case True
  have keys: "set (dict_keys (dict_del k c @ [(k, v)])) = set (dict_keys c)"
    if "dict_contains k c" for c :: "(key \<times> val) list"
  proof -
    have "dict_keys [(k, v)] = [k]" by (simp add: dict_keys_def)
    with that show ?thesis
      by (auto simp: dict_keys_append dict_keys_dict_del dict_contains_def)
  qed
  show ?thesis
  proof (cases t)
    case (LRU s)
    with assms True have b: "policy_bounded s" and c: "dict_contains k (cache s)" by simp_all
    from refresh_level_hit_lru[OF b c, of v] bounded_reinsert[OF b c, of v] keys[OF c] LRU
    show ?thesis by simp
  next
    case (LFU s)
    with assms True have b: "policy_bounded s" and c: "dict_contains k (cache s)" by simp_all
    from bounded_reinsert[OF b c, of v]
    have "policy_bounded (s\<lparr>cache := dict_del k (cache s) @ [(k, v)],
        frequency := dict_set k 1 (counter_incr k (frequency s))\<rparr>)"
      by (simp add: policy_bounded_def)
    with refresh_level_hit_lfu[OF b c, of v] keys[OF c] LFU show ?thesis by simp
  qed
qed

lemma refresh_step:
  assumes "tier_bounded t"
  shows "refresh k v (t # ts) = prepend (refresh_level k v t) (refresh k v ts)"
proof (cases "dict_contains k (tier_cache t)")
  case False
  then show ?thesis by (simp add: refresh_level_miss tier_get_miss)
next
  case True
  from tier_get_hit[OF True] assms obtain x t1 where g: "tier_get k t = (Some x, t1)"
    and k1: "set (dict_keys (tier_cache t1)) = set (dict_keys (tier_cache t))"
    and b1: "tier_bounded t1" by blast
  from True k1 have c1: "dict_contains k (tier_cache t1)" by (simp add: dict_contains_def)
  from tier_put_after_remove[OF b1 c1, of v] obtain t2 where
    "tier_put k v (tier_remove k t1) = Inr t2" by blast
  with g show ?thesis by (simp add: refresh_level_def)
qed

lemma refresh_bounded:
  "list_all tier_bounded ts \<Longrightarrow> refresh k v ts = Returned () (map (refresh_level k v) ts)"
proof (induction ts)
  case Nil
  show ?case by simp
next
  case (Cons t ts)
  then have "tier_bounded t" and "refresh k v ts = Returned () (map (refresh_level k v) ts)"
    by simp_all
  with refresh_step[of t k v ts] show ?case by simp
qed

section \<open>The scan and the refresh pass\<close>

lemma scan_first_hit:
  "i < length ls \<Longrightarrow> dict_contains k (tier_cache (ls ! i)) \<Longrightarrow>
   (\<forall>j<i. \<not> dict_contains k (tier_cache (ls ! j))) \<Longrightarrow>
   scan k ls = (fst (tier_get k (ls ! i)), ls[i := snd (tier_get k (ls ! i))])"
proof (induction ls arbitrary: i)
  case Nil
  then show ?case by simp
next
  case (Cons t ts)
  show ?case
  proof (cases i)
    case 0
    with Cons.prems have "dict_contains k (tier_cache t)" by simp
    from tier_get_hit[OF this] obtain x t1 where "tier_get k t = (Some x, t1)" by blast
    with 0 show ?thesis by simp
  next
    case (Suc n)
    with Cons.prems have miss: "\<not> dict_contains k (tier_cache t)" by auto
    from Suc Cons.prems have "n < length ts" "dict_contains k (tier_cache (ts ! n))"
      "\<forall>j<n. \<not> dict_contains k (tier_cache (ts ! j))" by auto
    from Cons.IH[OF this] Suc miss show ?thesis by (simp add: tier_get_miss)
  qed
qed

lemma scan_all_miss:
  "(\<forall>t\<in>set ls. \<not> dict_contains k (tier_cache t)) \<Longrightarrow> scan k ls = (None, ls)"
  by (induction ls) (simp_all add: tier_get_miss)

lemma move_up_bounded:
  "list_all tier_bounded (tl ls) \<Longrightarrow>
     move_up k v ls = Returned () (case ls of [] \<Rightarrow> [] | t0 # rest \<Rightarrow> t0 # map (refresh_level k v) rest)"
  by (cases ls) (simp_all add: move_up_def refresh_bounded)

lemma list_all_update:
  "list_all P xs \<Longrightarrow> P y \<Longrightarrow> list_all P (xs[i := y])"
  by (auto simp: list_all_iff dest: set_update_subset_insert[THEN subsetD])

lemma list_all_tl: "list_all P xs \<Longrightarrow> list_all P (tl xs)"
  by (cases xs) simp_all

lemma mcs_get_first_hit:
  assumes b: "list_all tier_bounded ls" and i: "i < length ls"
    and c: "dict_contains k (tier_cache (ls ! i))"
    and m: "\<forall>j<i. \<not> dict_contains k (tier_cache (ls ! j))"
  shows "\<exists>x ls'. mcs_get k ls = Returned (Some x) ls'
      \<and> map_of (tier_cache (ls ! i)) k = Some x
      \<and> length ls' = length ls
      \<and> ls' ! 0 = (if i = 0 then snd (tier_get k (ls ! 0)) else ls ! 0)
      \<and> (\<forall>j. 0 < j \<and> j < length ls \<longrightarrow>
            ls' ! j = refresh_level k x (if j = i then snd (tier_get k (ls ! i)) else ls ! j))"
proof -
  from tier_get_hit[OF c] obtain x t1 where g: "tier_get k (ls ! i) = (Some x, t1)"
    and x: "map_of (tier_cache (ls ! i)) k = Some x"
    and bt: "tier_bounded (ls ! i) \<longrightarrow> tier_bounded t1" by blast
  from b i have "tier_bounded (ls ! i)" by (simp add: list_all_length)
  with bt have b1: "tier_bounded t1" by simp
  define ls1 where "ls1 = ls[i := t1]"
  from scan_first_hit[OF i c m] g have sc: "scan k ls = (Some x, ls1)" by (simp add: ls1_def)
  from b b1 have "list_all tier_bounded ls1" unfolding ls1_def by (rule list_all_update)
  then have "list_all tier_bounded (tl ls1)" by (rule list_all_tl)
  from move_up_bounded[OF this, of k x]
  have mu: "move_up k x ls1
      = Returned () (case ls1 of [] \<Rightarrow> [] | t0 # rest \<Rightarrow> t0 # map (refresh_level k x) rest)" .
  from i obtain t0 rest where l1: "ls1 = t0 # rest"
    by (cases ls1) (auto simp: ls1_def)
  define ls' where "ls' = t0 # map (refresh_level k x) rest"
  from sc mu l1 have r: "mcs_get k ls = Returned (Some x) ls'"
    by (simp add: mcs_get_def ls'_def)
  have len: "length ls' = length ls" using l1 by (simp add: ls'_def ls1_def[symmetric])
      (metis length_list_update ls1_def length_Cons)
  have n0: "ls' ! 0 = ls1 ! 0" by (simp add: ls'_def l1)
  have nj: "ls' ! j = refresh_level k x (ls1 ! j)" if "0 < j" "j < length ls" for j
  proof -
    from that obtain n where j: "j = Suc n" by (cases j) auto
    from that(2) have "j < length ls1" by (simp add: ls1_def)
    with j l1 have "n < length rest" by simp
    with j l1 show ?thesis by (simp add: ls'_def)
  qed
  have u0: "ls1 ! 0 = (if i = 0 then snd (tier_get k (ls ! 0)) else ls ! 0)"
    using i g by (auto simp: ls1_def)
  have uj: "ls1 ! j = (if j = i then snd (tier_get k (ls ! i)) else ls ! j)"
    if "j < length ls" for j
    using that g by (auto simp: ls1_def)
  from r x len n0 u0 nj uj show ?thesis by auto
qed

lemma counter_get_incr: "counter_get (counter_incr k c) k = counter_get c k + 1"
  by (simp add: counter_incr_def counter_get_def map_of_dict_set_same)

lemma counter_get_set: "counter_get (dict_set k n c) k = n"
  by (simp add: counter_get_def map_of_dict_set_same)

section \<open>Puts that return\<close>

lemma lru_put_total:
  assumes "1 \<le> psize s"
  shows "\<exists>s'. lru_put k v s = Inr s'"
proof (cases "dict_contains k (cache s)")
  case True
  then show ?thesis by (simp add: lru_put_def lru_put_branch_def)
next
  case False
  show ?thesis
  proof (cases "psize s \<le> int (length (cache s))")
    case True
    with assms False lru_put_at_capacity[of s k v] show ?thesis by simp
  next
    case room: False
    with lru_put_new[OF False, of v] show ?thesis by simp
  qed
qed

lemma lfu_put_total:
  assumes "lfu_ok s"
  shows "\<exists>s'. lfu_put k v s = Inr s'"
proof (cases "dict_contains k (cache s)")
  case True
  then show ?thesis by (simp add: lfu_put_def lfu_put_branch_def)
next
  case False
  show ?thesis
  proof (cases "psize s \<le> int (length (cache s))")
    case True
    from assms have "lfu_consistent s" and "1 \<le> psize s" by (simp_all add: lfu_ok_def)
    from lfu_put_evicts_min[OF this True False, of v] show ?thesis by blast
  next
    case room: False
    with False show ?thesis by (simp add: lfu_put_def lfu_put_branch_def)
  qed
qed

lemma tier_put_total: "tier_ok t \<Longrightarrow> \<exists>t'. tier_put k v t = Inr t'"
proof (cases t)
  case (LRU s)
  assume "tier_ok t"
  with LRU have "1 \<le> psize s" by (simp add: lru_ok_def)
  from lru_put_total[OF this, of k v] LRU show ?thesis by auto
next
  case (LFU s)
  assume "tier_ok t"
  with LFU have "lfu_ok s" by simp
  from lfu_put_total[OF this, of k v] LFU show ?thesis by auto
qed

lemma tier_put_stores:
  assumes "tier_put k v t = Inr t'"
  shows "map_of (tier_cache t') k = Some v"
proof (cases t)
  case (LRU s)
  with assms show ?thesis
    by (auto simp: lru_put_def map_of_dict_set_same split: sum.splits)
next
  case (LFU s)
  with assms show ?thesis
    by (auto simp: lfu_put_def map_of_dict_set_same split: sum.splits)
qed

lemma prepend_Returned:
  "prepend t out = Returned u ls' \<Longrightarrow> \<exists>ts. ls' = t # ts"
  by (cases out) auto

lemma mcs_put_Returned:
  assumes "mcs_put k v ls = Returned u ls'"
  shows "\<exists>t0 rest t1 ts. ls = t0 # rest \<and> tier_put k v t0 = Inr t1 \<and> ls' = t1 # ts"
proof (cases ls)
  case Nil
  with assms show ?thesis by (simp add: mcs_put_def)
next
  case (Cons t0 rest)
  show ?thesis
  proof (cases "tier_put k v t0")
    case (Inl e)
    with assms Cons show ?thesis by (simp add: mcs_put_def)
  next
    case (Inr t1)
    with assms Cons have "prepend t1 (refresh k v rest) = Returned u ls'"
      by (simp add: mcs_put_def move_up_def)
    from prepend_Returned[OF this] Cons Inr show ?thesis by auto
  qed
qed

section \<open>Well-formedness is kept by the cache system\<close>

text \<open>
  Every level of a cache system that was built by \<open>addCacheLevel\<close> calls with sizes
  of at least 1 is \<open>tier_ok\<close>, hence \<open>tier_bounded\<close>, after any sequence of
  calls (lemma \<open>reachable_levels_ok\<close>); on such levels \<open>get\<close> always returns,
  and \<open>put\<close> raises only when there is no level.
\<close>

lemma lfu_consistent_incr:
  assumes "lfu_consistent s" and "dict_contains k (cache s)"
  shows "lfu_consistent (s\<lparr>frequency := counter_incr k (frequency s)\<rparr>)"
  using assms
  by (simp add: lfu_consistent_def counter_incr_def dict_keys_dict_set dict_contains_def)

lemma tier_get_ok: "tier_ok t \<Longrightarrow> tier_ok (snd (tier_get k t))"
proof (cases t)
  case (LRU s)
  assume "tier_ok t"
  with LRU have "1 \<le> psize s" and b: "policy_bounded s" by (simp_all add: lru_ok_def)
  with lru_get_bounded[OF b, of k] LRU show ?thesis
    by (simp add: snd_tier_get lru_ok_def del: tier_get.simps)
next
  case (LFU s)
  assume "tier_ok t"
  with LFU have ok: "lfu_ok s" by simp
  show ?thesis
  proof (cases "dict_contains k (cache s)")
    case False
    with LFU ok show ?thesis by (simp add: lfu_get_def)
  next
    case True
    from ok lfu_consistent_incr[OF _ True]
    have "lfu_ok (s\<lparr>frequency := counter_incr k (frequency s)\<rparr>)"
      by (simp add: lfu_ok_def policy_bounded_def)
    with LFU True show ?thesis by (simp add: lfu_get_def)
  qed
qed

lemma lfu_put_consistent:
  assumes ok: "lfu_ok s" and p: "lfu_put k v s = Inr s'"
  shows "lfu_consistent s'"
proof -
  from ok have con: "lfu_consistent s" and pos: "1 \<le> psize s" by (simp_all add: lfu_ok_def)
  show ?thesis
  proof (cases "dict_contains k (cache s)")
    case True
    with p have s': "s' = s\<lparr>cache := dict_set k v (dict_set k v (cache s)),
        frequency := dict_set k 1 (counter_incr k (frequency s))\<rparr>"
      by (simp add: lfu_put_def lfu_put_branch_def)
    from con True show ?thesis unfolding s'
      by (simp add: lfu_consistent_def counter_incr_def dict_keys_dict_set dict_contains_def)
  next
    case False
    show ?thesis
    proof (cases "psize s \<le> int (length (cache s))")
      case True
      from lfu_put_evicts_min[OF con pos True False, of v] p obtain e where
        s': "s' = s\<lparr>cache := dict_del e (cache s) @ [(k, v)],
            frequency := dict_del e (frequency s) @ [(k, 1)]\<rparr>" by auto
      have k1: "dict_keys [(k, v)] = [k]" and k2: "dict_keys [(k, 1::int)] = [k]"
        by (simp_all add: dict_keys_def)
      from con False show ?thesis unfolding s'
        by (simp add: lfu_consistent_def dict_keys_append dict_keys_dict_del k1 k2
            dict_contains_def distinct_removeAll)
    next
      case room: False
      from con False have nf: "k \<notin> set (dict_keys (frequency s))"
        and nc: "k \<notin> set (dict_keys (cache s))"
        by (simp_all add: lfu_consistent_def dict_contains_def)
      with p False room have s': "s' = s\<lparr>cache := cache s @ [(k, v)],
          frequency := frequency s @ [(k, 1)]\<rparr>"
        by (simp add: lfu_put_def lfu_put_branch_def dict_set_absent)
      have k1: "dict_keys [(k, v)] = [k]" and k2: "dict_keys [(k, 1::int)] = [k]"
        by (simp_all add: dict_keys_def)
      from con nf nc show ?thesis unfolding s'
        by (simp add: lfu_consistent_def dict_keys_append k1 k2)
    qed
  qed
qed

lemma tier_put_ok:
  assumes "tier_ok t" and "tier_put k v t = Inr t'"
  shows "tier_ok t'"
proof (cases t)
  case (LRU s)
  with assms obtain s' where p: "lru_put k v s = Inr s'" and t': "t' = LRU s'"
    by (auto split: sum.splits)
  from assms(1) LRU have "1 \<le> psize s" and b: "policy_bounded s" by (simp_all add: lru_ok_def)
  with lru_put_bounded[OF b p] t' show ?thesis by (simp add: lru_ok_def)
next
  case (LFU s)
  with assms obtain s' where p: "lfu_put k v s = Inr s'" and t': "t' = LFU s'"
    by (auto split: sum.splits)
  from assms(1) LFU have ok: "lfu_ok s" by simp
  then have "1 \<le> psize s" and b: "policy_bounded s" by (simp_all add: lfu_ok_def)
  with lfu_put_bounded[OF b p] lfu_put_consistent[OF ok p] t' show ?thesis
    by (simp add: lfu_ok_def)
qed

lemma refresh_level_ok:
  assumes "tier_ok t"
  shows "tier_ok (refresh_level k v t)"
proof (cases "dict_contains k (tier_cache t)")
  case False
  with assms show ?thesis by (simp add: refresh_level_miss)
next
  case True
  show ?thesis
  proof (cases t)
    case (LRU s)
    with assms True have pos: "1 \<le> psize s" and b: "policy_bounded s"
      and c: "dict_contains k (cache s)" by (simp_all add: lru_ok_def)
    from refresh_level_hit_lru[OF b c, of v] bounded_reinsert[OF b c, of v] pos LRU
    show ?thesis by (simp add: lru_ok_def)
  next
    case (LFU s)
    with assms True have pos: "1 \<le> psize s" and b: "policy_bounded s"
      and con: "lfu_consistent s" and c: "dict_contains k (cache s)"
      by (simp_all add: lfu_ok_def)
    let ?s' = "s\<lparr>cache := dict_del k (cache s) @ [(k, v)],
               frequency := dict_set k 1 (counter_incr k (frequency s))\<rparr>"
    from bounded_reinsert[OF b c, of v] have b': "policy_bounded ?s'"
      by (simp add: policy_bounded_def)
    have k1: "dict_keys [(k, v)] = [k]" by (simp add: dict_keys_def)
    from con c have "lfu_consistent ?s'"
      by (auto simp: lfu_consistent_def counter_incr_def dict_keys_dict_set dict_contains_def
          dict_keys_append dict_keys_dict_del k1 distinct_removeAll)
    with refresh_level_hit_lfu[OF b c, of v] b' pos LFU show ?thesis
      by (simp add: lfu_ok_def)
  qed
qed

lemma tier_ok_bounded: "tier_ok t \<Longrightarrow> tier_bounded t"
  by (cases t) (simp_all add: lru_ok_def lfu_ok_def)

lemma list_all_ok_bounded: "list_all tier_ok ls \<Longrightarrow> list_all tier_bounded ls"
  by (induction ls) (simp_all add: tier_ok_bounded)

lemma scan_ok: "list_all tier_ok ls \<Longrightarrow> list_all tier_ok (snd (scan k ls))"
proof (induction ls)
  case Nil
  show ?case by simp
next
  case (Cons t ts)
  then have t: "tier_ok t" and ts: "list_all tier_ok ts"
    and ih: "list_all tier_ok (snd (scan k ts))" by simp_all
  obtain r t1 where g: "tier_get k t = (r, t1)" by (cases "tier_get k t")
  with tier_get_ok[OF t, of k] have t1: "tier_ok t1" by simp
  obtain r' ts' where sc: "scan k ts = (r', ts')" by (cases "scan k ts")
  with ih have "list_all tier_ok ts'" by simp
  with g sc t1 ts show ?case by (cases r) simp_all
qed

lemma mcs_get_ok:
  assumes "list_all tier_ok ls"
  shows "\<exists>r ls'. mcs_get k ls = Returned r ls' \<and> list_all tier_ok ls'"
proof -
  obtain r ls1 where sc: "scan k ls = (r, ls1)" by (cases "scan k ls")
  with scan_ok[OF assms, of k] have ok1: "list_all tier_ok ls1" by simp
  show ?thesis
  proof (cases r)
    case None
    with sc ok1 show ?thesis by (simp add: mcs_get_def)
  next
    case (Some x)
    from ok1 have "list_all tier_bounded (tl ls1)"
      by (intro list_all_tl list_all_ok_bounded)
    from move_up_bounded[OF this, of k x] have mu: "move_up k x ls1
      = Returned () (case ls1 of [] \<Rightarrow> [] | t0 # rest \<Rightarrow> t0 # map (refresh_level k x) rest)" .
    from ok1 have "list_all tier_ok
        (case ls1 of [] \<Rightarrow> [] | t0 # rest \<Rightarrow> t0 # map (refresh_level k x) rest)"
      by (cases ls1) (simp_all add: list_all_iff refresh_level_ok)
    with sc Some mu show ?thesis by (simp add: mcs_get_def)
  qed
qed

lemma mcs_put_ok:
  assumes "list_all tier_ok ls"
  shows "(ls = [] \<and> mcs_put k v ls = Raised IndexError [])
       \<or> (\<exists>ls'. mcs_put k v ls = Returned () ls' \<and> list_all tier_ok ls')"
proof (cases ls)
  case Nil
  then show ?thesis by (simp add: mcs_put_def)
next
  case (Cons t0 rest)
  with assms have t0: "tier_ok t0" and rest: "list_all tier_ok rest" by simp_all
  from tier_put_total[OF t0, of k v] obtain t1 where p: "tier_put k v t0 = Inr t1" by blast
  from tier_put_ok[OF t0 p] have t1: "tier_ok t1" .
  from rest have "list_all tier_bounded rest" by (rule list_all_ok_bounded)
  from refresh_bounded[OF this, of k v] Cons p
  have "mcs_put k v ls = Returned () (t1 # map (refresh_level k v) rest)"
    by (simp add: mcs_put_def move_up_def)
  moreover from t1 rest have "list_all tier_ok (t1 # map (refresh_level k v) rest)"
    by (simp add: list_all_iff refresh_level_ok)
  ultimately show ?thesis by blast
qed

lemma mcs_step_ok:
  assumes "list_all tier_ok ls" and "positive_size c"
  shows "list_all tier_ok (mcs_step c ls)"
proof (cases c)
  case (AddLevel n p)
  with assms show ?thesis
    by (simp add: addCacheLevel_def new_lru_def new_lfu_def lru_ok_def lfu_ok_def
        policy_bounded_def lfu_consistent_def dict_keys_def)
next
  case (RemoveLevel i)
  from assms(1) have "list_all tier_ok (take (nat i) ls @ drop (Suc (nat i)) ls)"
    by (auto simp: list_all_iff dest: in_set_takeD in_set_dropD)
  with RemoveLevel assms(1) show ?thesis by (simp add: removeCacheLevel_def)
next
  case (GetKey k)
  with mcs_get_ok[OF assms(1), of k] show ?thesis by auto
next
  case (PutKey k v)
  with mcs_put_ok[OF assms(1), of k v] show ?thesis by auto
qed

lemma mcs_run_ok:
  "list_all tier_ok ls \<Longrightarrow> list_all positive_size cs \<Longrightarrow> list_all tier_ok (fold mcs_step cs ls)"
proof (induction cs arbitrary: ls)
  case Nil
  then show ?case by simp
next
  case (Cons c cs)
  then have "list_all tier_ok (mcs_step c ls)" by (simp add: mcs_step_ok)
  with Cons show ?case by simp
qed

lemma reachable_levels_ok:
  "list_all positive_size cs \<Longrightarrow> list_all tier_ok (fold mcs_step cs [])"
  by (rule mcs_run_ok) simp_all

section \<open>The frequency policy resets the count on every put\<close>

text \<open>
  C1. Whenever \<open>LFUPolicy.put(key, value)\<close> succeeds, the frequency table afterwards
  records the count 1 for \<open>key\<close>: the final assignment \<open>self.frequency[key] = 1\<close> is
  reached on the update path, the eviction path and the plain insertion path alike, and it
  overwrites whatever count the key had, including the increment of the update path.
\<close>

theorem lfu_put_count_is_one:
  "lfu_put k v s = Inr s' \<Longrightarrow>
     map_of (frequency s') k = Some 1 \<and> counter_get (frequency s') k = 1"
  by (auto simp: lfu_put_def counter_get_def map_of_dict_set_same split: sum.splits)

theorem lfu_put_count_is_one_witness:
  "lfu_put ''a'' ''new'' \<lparr>psize = 2, cache = [(''a'', ''old'')], frequency = [(''a'', 7)]\<rparr>
     = Inr \<lparr>psize = 2, cache = [(''a'', ''new'')], frequency = [(''a'', 1)]\<rparr>
   \<and> counter_get (frequency \<lparr>psize = 2, cache = [(''a'', ''new'')], frequency = [(''a'', 1)]\<rparr>) ''a'' = 1"
proof -
  have e: "lfu_put ''a'' ''new'' \<lparr>psize = 2, cache = [(''a'', ''old'')], frequency = [(''a'', 7)]\<rparr>
     = Inr \<lparr>psize = 2, cache = [(''a'', ''new'')], frequency = [(''a'', 1)]\<rparr>"
    by (simp add: lfu_put_def lfu_put_branch_def dict_contains_def dict_keys_def
        counter_incr_def counter_get_def)
  from lfu_put_count_is_one [OF e] e show ?thesis by simp
qed

section \<open>Removing a key\<close>

text \<open>
  C7. \<open>remove(key)\<close> is meant to delete the whole entry, the access count of a
  frequency policy included. \<open>LFUPolicy\<close> inherits \<open>EvictionPolicy.remove\<close>, which
  deletes from \<open>self.cache\<close> only: on a frequency policy holding \<open>a\<close> with count 1,
  \<open>remove('a')\<close> empties the cache and leaves the count of \<open>a\<close> in the frequency
  table. (The eviction branch of \<open>LFUPolicy.put\<close> deletes from both.) The lemmas
  \<open>policy_remove_cache\<close>, \<open>policy_remove_gone\<close>, \<open>policy_remove_others\<close> and
  \<open>policy_remove_absent\<close> above are the part that does hold: the pair is deleted, the
  other pairs stay, and an absent key changes nothing.
\<close>

theorem lfu_remove_keeps_count:
  "policy_remove ''a'' \<lparr>psize = 1, cache = [(''a'', ''1'')], frequency = [(''a'', 1)]\<rparr>
     = \<lparr>psize = 1, cache = [], frequency = [(''a'', 1)]\<rparr>"
  by (simp add: policy_remove_def dict_contains_def dict_keys_def dict_del_def)

section \<open>Eviction by frequency\<close>

text \<open>
  C3. A frequency policy at capacity is meant to evict a held key of minimal count when a
  new key is put. \<open>min\<close> ranges over the frequency table, not over the held keys, and
  after \<open>remove\<close> the table still lists the removed key: with size 1, after
  \<open>put('a','1')\<close>, \<open>remove('a')\<close>, \<open>put('b','2')\<close>, the call \<open>put('c','3')\<close>
  selects \<open>a\<close>, \<open>self.cache.pop('a')\<close> raises \<open>KeyError\<close>, and nothing is evicted.
  On states where the frequency table lists exactly the held keys the eviction is as
  described: \<open>lfu_put_evicts_min\<close> and \<open>lfu_put_evicts_least\<close> above.
\<close>

theorem lfu_put_after_remove_raises:
  "lfu_put ''a'' ''1'' (new_lfu 1)
     = Inr \<lparr>psize = 1, cache = [(''a'', ''1'')], frequency = [(''a'', 1)]\<rparr>
   \<and> lfu_put ''b'' ''2''
       (policy_remove ''a'' \<lparr>psize = 1, cache = [(''a'', ''1'')], frequency = [(''a'', 1)]\<rparr>)
     = Inr \<lparr>psize = 1, cache = [(''b'', ''2'')], frequency = [(''a'', 1), (''b'', 1)]\<rparr>
   \<and> lfu_put ''c'' ''3''
       \<lparr>psize = 1, cache = [(''b'', ''2'')], frequency = [(''a'', 1), (''b'', 1)]\<rparr>
     = Inl KeyError"
  by (simp add: lfu_put_def lfu_put_branch_def new_lfu_def policy_remove_def dict_contains_def
      dict_keys_def dict_del_def dict_pop_def min_key_def counter_del_def)

section \<open>Eviction by recency\<close>

text \<open>
  C4. A recency policy of size \<open>N \<ge> 1\<close> evicts exactly the least recently used entry.
  \<^item> Putting \<open>N + 1\<close> distinct keys into the fresh policy leaves all pairs but the first,
    in insertion order.
  \<^item> A put of a new key at capacity drops the head of the cache and appends the new pair.
  \<^item> A \<open>get\<close> of a held key returns its value and moves the pair to the tail. From then
    on, through any later calls, a key \<open>j\<close> that none of these calls names is held only
    while \<open>k\<close> is held and is the older of the two: eviction takes the head, so
    \<open>k\<close> is evicted only after every key not accessed since the \<open>get\<close>. (An
    explicit \<open>remove\<close> of \<open>k\<close> itself is not an eviction and is excluded.)
\<close>

theorem lru_evicts_least_recent:
  assumes "1 \<le> N"
  shows "(distinct (map fst kvs) \<and> length kvs = Suc N \<longrightarrow>
            lru_put_all kvs (new_lru (int N)) = Inr \<lparr>psize = int N, cache = tl kvs\<rparr>)
     \<and> (psize s = int N \<and> int N \<le> int (length (cache s)) \<and> \<not> dict_contains x (cache s) \<longrightarrow>
            lru_put x w s = Inr (s\<lparr>cache := tl (cache s) @ [(x, w)]\<rparr>))
     \<and> (distinct (dict_keys (cache s)) \<and> map_of (cache s) k = Some v \<longrightarrow>
            lru_get k s = (Some v, s\<lparr>cache := dict_del k (cache s) @ [(k, v)]\<rparr>)
          \<and> (\<forall>rs j. j \<noteq> k \<and> j \<notin> request_key ` set rs \<and> Remove k \<notin> set rs
                    \<and> dict_contains j (cache (fold lru_step rs (snd (lru_get k s))))
               \<longrightarrow> dict_contains k (cache (fold lru_step rs (snd (lru_get k s))))
                  \<and> older j k (dict_keys (cache (fold lru_step rs (snd (lru_get k s)))))))"
proof (intro conjI impI allI)
  assume "distinct (map fst kvs) \<and> length kvs = Suc N"
  with lru_put_all_one_more[OF assms, of kvs]
  show "lru_put_all kvs (new_lru (int N)) = Inr \<lparr>psize = int N, cache = tl kvs\<rparr>"
    by blast
next
  assume a: "psize s = int N \<and> int N \<le> int (length (cache s)) \<and> \<not> dict_contains x (cache s)"
  with assms have "1 \<le> psize s" and "psize s \<le> int (length (cache s))"
    and "\<not> dict_contains x (cache s)" by simp_all
  then show "lru_put x w s = Inr (s\<lparr>cache := tl (cache s) @ [(x, w)]\<rparr>)"
    by (rule lru_put_at_capacity)
next
  assume "distinct (dict_keys (cache s)) \<and> map_of (cache s) k = Some v"
  then show "lru_get k s = (Some v, s\<lparr>cache := dict_del k (cache s) @ [(k, v)]\<rparr>)"
    by (simp add: lru_get_present)
next
  fix rs j
  assume h: "distinct (dict_keys (cache s)) \<and> map_of (cache s) k = Some v"
    and g: "j \<noteq> k \<and> j \<notin> request_key ` set rs \<and> Remove k \<notin> set rs
        \<and> dict_contains j (cache (fold lru_step rs (snd (lru_get k s))))"
  from h have "dict_contains k (cache s)"
    by (auto simp: dict_contains_def dict_keys_def dest: map_of_SomeD intro: rev_image_eqI)
  with h g have "outlasts k j (snd (lru_get k s))" by (simp add: outlasts_after_get)
  with g have "outlasts k j (fold lru_step rs (snd (lru_get k s)))"
    by (simp add: outlasts_fold)
  with g have o: "older j k (dict_keys (cache (fold lru_step rs (snd (lru_get k s)))))"
    by (simp add: outlasts_def)
  then show "older j k (dict_keys (cache (fold lru_step rs (snd (lru_get k s)))))" .
  from older_present[OF o]
  show "dict_contains k (cache (fold lru_step rs (snd (lru_get k s))))"
    by (simp add: dict_contains_def)
qed

theorem lru_evicts_least_recent_witness:
  "(1::nat) \<le> 3
   \<and> lru_put_all [(''a'', ''1''), (''b'', ''2''), (''c'', ''3''), (''d'', ''4'')] (new_lru 3)
       = Inr \<lparr>psize = 3, cache = [(''b'', ''2''), (''c'', ''3''), (''d'', ''4'')]\<rparr>
   \<and> cache (fold lru_step [Put ''d'' ''4'']
        (snd (lru_get ''a'' \<lparr>psize = 3, cache = [(''a'', ''1''), (''b'', ''2''), (''c'', ''3'')]\<rparr>)))
       = [(''c'', ''3''), (''a'', ''1''), (''d'', ''4'')]
   \<and> older ''c'' ''a'' [''c'', ''a'', ''d'']
   \<and> lru_put ''d'' ''4'' \<lparr>psize = 3, cache = [(''a'', ''1''), (''b'', ''2''), (''c'', ''3'')]\<rparr>
       = Inr \<lparr>psize = 3, cache = [(''b'', ''2''), (''c'', ''3''), (''d'', ''4'')]\<rparr>"
proof -
  let ?kvs = "[(''a'', ''1''), (''b'', ''2''), (''c'', ''3''), (''d'', ''4'')]"
  let ?s = "\<lparr>psize = 3, cache = [(''a'', ''1''), (''b'', ''2''), (''c'', ''3'')]\<rparr>"
  let ?rs = "[Put ''d'' ''4'']"
  have one: "(1::nat) \<le> 3" by simp
  note t = lru_evicts_least_recent [OF one, of ?kvs ?s "''d''" "''4''" "''a''" "''1''"]
  have run: "cache (fold lru_step ?rs (snd (lru_get ''a'' ?s)))
       = [(''c'', ''3''), (''a'', ''1''), (''d'', ''4'')]"
    by (simp add: lru_get_def lru_put_def lru_put_branch_def dict_contains_def dict_keys_def
        move_to_end_def dict_del_def popitem_first_def Let_def)
  have h1: "distinct (map fst ?kvs) \<and> length ?kvs = Suc 3" by simp
  from t [THEN conjunct1, THEN mp, OF h1]
  have p1: "lru_put_all ?kvs (new_lru 3)
       = Inr \<lparr>psize = 3, cache = [(''b'', ''2''), (''c'', ''3''), (''d'', ''4'')]\<rparr>"
    by simp
  have h3: "distinct (dict_keys (cache ?s)) \<and> map_of (cache ?s) ''a'' = Some ''1''"
    by (simp add: dict_keys_def)
  have g: "''c'' \<noteq> ''a'' \<and> ''c'' \<notin> request_key ` set ?rs \<and> Remove ''a'' \<notin> set ?rs
       \<and> dict_contains ''c'' (cache (fold lru_step ?rs (snd (lru_get ''a'' ?s))))"
    unfolding run by (simp add: dict_contains_def dict_keys_def)
  from t [THEN conjunct2, THEN conjunct2, THEN mp, OF h3, THEN conjunct2,
      THEN spec, THEN spec, THEN mp, OF g, THEN conjunct2]
  have p3: "older ''c'' ''a'' [''c'', ''a'', ''d'']"
    unfolding run by (simp add: dict_keys_def)
  have h2: "psize ?s = int 3 \<and> int 3 \<le> int (length (cache ?s))
       \<and> \<not> dict_contains ''d'' (cache ?s)"
    by (simp add: dict_contains_def dict_keys_def)
  from t [THEN conjunct2, THEN conjunct1, THEN mp, OF h2]
  have p2: "lru_put ''d'' ''4'' ?s
       = Inr \<lparr>psize = 3, cache = [(''b'', ''2''), (''c'', ''3''), (''d'', ''4'')]\<rparr>"
    by simp
  from one p1 run p3 p2 show ?thesis by (intro conjI)
qed

section \<open>The size bound\<close>

text \<open>
  C9. A tier constructed with size \<open>n \<ge> 1\<close>, of either policy, never holds more than
  \<open>n\<close> entries, whatever sequence of \<open>get\<close>, \<open>put\<close> and \<open>remove\<close> calls it
  receives (a \<open>put\<close> that raises leaves it unchanged); its size field stays \<open>n\<close> and
  no key occurs twice. The step lemmas \<open>lru_put_bounded\<close> and \<open>lfu_put_bounded\<close>
  carry the reason: a \<open>put\<close> of a new key at capacity that returns has dropped one entry
  before it appends one.
\<close>

theorem tier_never_exceeds_size:
  assumes "1 \<le> n" and "t = LRU (new_lru n) \<or> t = LFU (new_lfu n)"
  shows "tier_size (fold tier_step rs t) = n
     \<and> distinct (dict_keys (tier_cache (fold tier_step rs t)))
     \<and> int (length (tier_cache (fold tier_step rs t))) \<le> n"
proof -
  from assms have "tier_bounded t" and "tier_size t = n"
    by (auto simp: new_lru_def new_lfu_def policy_bounded_def dict_keys_def)
  with fold_tier_step_bounded[of t rs]
  have "tier_bounded (fold tier_step rs t)" and "tier_size (fold tier_step rs t) = n" by simp_all
  then show ?thesis by (cases "fold tier_step rs t") (simp_all add: policy_bounded_def)
qed

theorem tier_never_exceeds_size_witness:
  "(1::int) \<le> 2
   \<and> tier_cache (fold tier_step
         [Put ''a'' ''1'', Put ''b'' ''2'', Get ''a'', Put ''c'' ''3'', Remove ''a'', Put ''d'' ''4'']
         (LFU (new_lfu 2))) = [(''c'', ''3''), (''d'', ''4'')]
   \<and> int (length (tier_cache (fold tier_step
         [Put ''a'' ''1'', Put ''b'' ''2'', Get ''a'', Put ''c'' ''3'', Remove ''a'', Put ''d'' ''4'']
         (LFU (new_lfu 2))))) \<le> 2"
proof -
  have run: "tier_cache (fold tier_step
         [Put ''a'' ''1'', Put ''b'' ''2'', Get ''a'', Put ''c'' ''3'', Remove ''a'', Put ''d'' ''4'']
         (LFU (new_lfu 2))) = [(''c'', ''3''), (''d'', ''4'')]"
    by (simp add: new_lfu_def lfu_put_def lfu_put_branch_def lfu_get_def policy_remove_def
        dict_contains_def dict_keys_def dict_del_def dict_pop_def min_key_def counter_del_def
        counter_incr_def counter_get_def)
  have one: "(1::int) \<le> 2" by simp
  from tier_never_exceeds_size [OF one, of "LFU (new_lfu 2)"
      "[Put ''a'' ''1'', Put ''b'' ''2'', Get ''a'', Put ''c'' ''3'', Remove ''a'', Put ''d'' ''4'']"]
  have "int (length (tier_cache (fold tier_step
         [Put ''a'' ''1'', Put ''b'' ''2'', Get ''a'', Put ''c'' ''3'', Remove ''a'', Put ''d'' ''4'']
         (LFU (new_lfu 2))))) \<le> 2" by blast
  with run one show ?thesis by blast
qed

section \<open>Puts that cannot succeed\<close>

text \<open>
  C6. \<open>put\<close> on a cache system without levels raises (\<open>IndexError\<close>, from
  \<open>self.levels[0]\<close>) and the list of levels stays empty. A policy constructed with a
  size of zero or less raises on the first \<open>put\<close>: the new key is not in the empty
  cache, \<open>len(self.cache) >= self.size\<close> holds, and the eviction runs on an empty
  store (\<open>KeyError\<close> from \<open>popitem\<close> for the recency policy, \<open>ValueError\<close> from
  \<open>min\<close> for the frequency policy). The policy keeps its empty contents, standalone
  and as level 0 of a cache system.
\<close>

theorem put_without_room_raises:
  "mcs_put k v [] = Raised IndexError []
   \<and> (n \<le> 0 \<longrightarrow>
        lru_put k v (new_lru n) = Inl KeyError
      \<and> lfu_put k v (new_lfu n) = Inl ValueError
      \<and> tier_step (Put k v) (LRU (new_lru n)) = LRU (new_lru n)
      \<and> tier_step (Put k v) (LFU (new_lfu n)) = LFU (new_lfu n)
      \<and> mcs_put k v (LRU (new_lru n) # rest) = Raised KeyError (LRU (new_lru n) # rest)
      \<and> mcs_put k v (LFU (new_lfu n) # rest) = Raised ValueError (LFU (new_lfu n) # rest))"
  by (simp add: mcs_put_def lru_put_def lru_put_branch_def lfu_put_def lfu_put_branch_def
      new_lru_def new_lfu_def dict_contains_def dict_keys_def popitem_first_def min_key_def)

theorem put_without_room_raises_witness:
  "mcs_put ''a'' ''1'' [] = Raised IndexError []
   \<and> (0::int) \<le> 0
   \<and> lru_put ''a'' ''1'' (new_lru 0) = Inl KeyError
   \<and> lfu_put ''a'' ''1'' (new_lfu 0) = Inl ValueError
   \<and> mcs_put ''a'' ''1'' [LFU (new_lfu 0)] = Raised ValueError [LFU (new_lfu 0)]"
  using put_without_room_raises [of "''a''" "''1''" 0 "[]"] by simp

section \<open>Adding and removing levels\<close>

text \<open>
  C8. \<open>addCacheLevel\<close> with a policy name other than \<open>'LRU'\<close> and \<open>'LFU'\<close>
  raises \<open>ValueError\<close> and leaves the levels as they are; with one of the two names it
  appends the fresh policy at the end. \<open>removeCacheLevel(level)\<close> raises
  \<open>IndexError\<close>, leaving the levels as they are, exactly when \<open>level\<close> is negative or
  not below the number of levels; otherwise the list gets one shorter, the levels below
  \<open>level\<close> stay at their index and every level above it moves down by one.
\<close>

theorem level_management:
  "(evictionPolicy \<noteq> ''LRU'' \<and> evictionPolicy \<noteq> ''LFU'' \<longrightarrow>
       addCacheLevel n evictionPolicy levels = Raised ValueError levels)
   \<and> addCacheLevel n ''LRU'' levels = Returned () (levels @ [LRU (new_lru n)])
   \<and> addCacheLevel n ''LFU'' levels = Returned () (levels @ [LFU (new_lfu n)])
   \<and> ((removeCacheLevel level levels = Raised IndexError levels)
        = (level < 0 \<or> int (length levels) \<le> level))
   \<and> (0 \<le> level \<and> level < int (length levels) \<longrightarrow>
        (\<exists>ls. removeCacheLevel level levels = Returned () ls
           \<and> Suc (length ls) = length levels
           \<and> (\<forall>i. i < nat level \<longrightarrow> ls ! i = levels ! i)
           \<and> (\<forall>i. nat level < i \<and> i < length levels \<longrightarrow> ls ! (i - 1) = levels ! i)))"
proof -
  have add: "(evictionPolicy \<noteq> ''LRU'' \<and> evictionPolicy \<noteq> ''LFU'' \<longrightarrow>
       addCacheLevel n evictionPolicy levels = Raised ValueError levels)
   \<and> addCacheLevel n ''LRU'' levels = Returned () (levels @ [LRU (new_lru n)])
   \<and> addCacheLevel n ''LFU'' levels = Returned () (levels @ [LFU (new_lfu n)])"
    by (simp add: addCacheLevel_def)
  have iff: "(removeCacheLevel level levels = Raised IndexError levels)
        = (level < 0 \<or> int (length levels) \<le> level)"
    by (auto simp: removeCacheLevel_def)
  have rem: "0 \<le> level \<and> level < int (length levels) \<longrightarrow>
        (\<exists>ls. removeCacheLevel level levels = Returned () ls
           \<and> Suc (length ls) = length levels
           \<and> (\<forall>i. i < nat level \<longrightarrow> ls ! i = levels ! i)
           \<and> (\<forall>i. nat level < i \<and> i < length levels \<longrightarrow> ls ! (i - 1) = levels ! i))"
  proof
    assume r: "0 \<le> level \<and> level < int (length levels)"
    then have n: "nat level < length levels" by auto
    let ?ls = "take (nat level) levels @ drop (Suc (nat level)) levels"
    from r have "removeCacheLevel level levels = Returned () ?ls"
      by (simp add: removeCacheLevel_shape)
    moreover from n have "Suc (length ?ls) = length levels" by simp
    moreover from n have "\<forall>i. i < nat level \<longrightarrow> ?ls ! i = levels ! i"
      by (simp add: nth_remove_below)
    moreover have "\<forall>i. nat level < i \<and> i < length levels \<longrightarrow> ?ls ! (i - 1) = levels ! i"
      using nth_remove_above[of "nat level" _ levels] by blast
    ultimately show "\<exists>ls. removeCacheLevel level levels = Returned () ls
           \<and> Suc (length ls) = length levels
           \<and> (\<forall>i. i < nat level \<longrightarrow> ls ! i = levels ! i)
           \<and> (\<forall>i. nat level < i \<and> i < length levels \<longrightarrow> ls ! (i - 1) = levels ! i)"
      by blast
  qed
  from add iff rem show ?thesis by blast
qed

theorem level_management_witness:
  "''FIFO'' \<noteq> ''LRU'' \<and> ''FIFO'' \<noteq> ''LFU''
   \<and> addCacheLevel 2 ''FIFO'' [LRU (new_lru 3), LFU (new_lfu 2)]
       = Raised ValueError [LRU (new_lru 3), LFU (new_lfu 2)]
   \<and> (0::int) \<le> 0 \<and> (0::int) < int (length [LRU (new_lru 3), LFU (new_lfu 2)])
   \<and> removeCacheLevel 0 [LRU (new_lru 3), LFU (new_lfu 2)] = Returned () [LFU (new_lfu 2)]
   \<and> removeCacheLevel 2 [LRU (new_lru 3), LFU (new_lfu 2)]
       = Raised IndexError [LRU (new_lru 3), LFU (new_lfu 2)]"
  using level_management [of "''FIFO''" 2 "[LRU (new_lru 3), LFU (new_lfu 2)]" 0]
    level_management [of "''FIFO''" 2 "[LRU (new_lru 3), LFU (new_lfu 2)]" 2]
  by (simp add: removeCacheLevel_def)

section \<open>Lookups through the levels\<close>

text \<open>
  The two theorems of this section are about states in which every level is
  \<open>tier_bounded\<close>: no key twice and no more entries than the size. Every level of a
  cache system whose levels were added with sizes of at least 1 is so, after any sequence
  of calls (lemmas \<open>reachable_levels_ok\<close> and \<open>list_all_ok_bounded\<close>), and it is
  what makes the \<open>put\<close> of the refresh pass, which follows a \<open>remove\<close> of the same
  key, find room without evicting.
\<close>

text \<open>
  C2. When \<open>k\<close> is held by level \<open>i > 0\<close> and by no other level, \<open>get(k)\<close> returns
  the value that level \<open>i\<close> holds for \<open>k\<close>. Afterwards every level below \<open>i\<close> is
  exactly as before (cache, order and counts), so none of them has gained \<open>k\<close>; the
  levels above \<open>i\<close> are as before too; and every level, level \<open>i\<close> included, holds the
  same set of keys as before: the refresh pass removes \<open>k\<close> from level \<open>i\<close> and puts
  it back into level \<open>i\<close>.
\<close>

theorem get_leaves_levels_in_place:
  assumes "list_all tier_bounded levels" and "0 < i" and "i < length levels"
    and "\<forall>j<length levels. dict_contains k (tier_cache (levels ! j)) = (j = i)"
  shows "\<exists>x ls'. mcs_get k levels = Returned (Some x) ls'
      \<and> map_of (tier_cache (levels ! i)) k = Some x
      \<and> length ls' = length levels
      \<and> (\<forall>j<i. ls' ! j = levels ! j)
      \<and> (\<forall>j. i < j \<and> j < length levels \<longrightarrow> ls' ! j = levels ! j)
      \<and> (\<forall>j<length levels.
            set (dict_keys (tier_cache (ls' ! j))) = set (dict_keys (tier_cache (levels ! j))))"
proof -
  from assms(3,4) have c: "dict_contains k (tier_cache (levels ! i))"
    and m: "\<forall>j<i. \<not> dict_contains k (tier_cache (levels ! j))" by auto
  from mcs_get_first_hit[OF assms(1,3) c m] assms(2) obtain x ls' where
    r: "mcs_get k levels = Returned (Some x) ls'"
    and x: "map_of (tier_cache (levels ! i)) k = Some x"
    and len: "length ls' = length levels"
    and n0: "ls' ! 0 = levels ! 0"
    and nj: "\<And>j. 0 < j \<Longrightarrow> j < length levels \<Longrightarrow>
        ls' ! j = refresh_level k x (if j = i then snd (tier_get k (levels ! i)) else levels ! j)"
    by auto
  have other: "ls' ! j = levels ! j" if "j < length levels" "j \<noteq> i" for j
  proof (cases j)
    case 0
    with n0 show ?thesis by simp
  next
    case (Suc n)
    from that assms(4) have "\<not> dict_contains k (tier_cache (levels ! j))" by simp
    with nj[of j] that Suc show ?thesis by (simp add: refresh_level_miss)
  qed
  have keys: "set (dict_keys (tier_cache (ls' ! j))) = set (dict_keys (tier_cache (levels ! j)))"
    if "j < length levels" for j
  proof (cases "j = i")
    case False
    with other[OF that] show ?thesis by simp
  next
    case True
    from tier_get_hit[OF c] obtain y t1 where g: "tier_get k (levels ! i) = (Some y, t1)"
      and k1: "set (dict_keys (tier_cache t1)) = set (dict_keys (tier_cache (levels ! i)))"
      and bt: "tier_bounded (levels ! i) \<longrightarrow> tier_bounded t1" by blast
    from assms(1,3) have "tier_bounded (levels ! i)" by (simp add: list_all_length)
    with bt have "tier_bounded t1" by simp
    from refresh_level_bounded[OF this, of k x] k1
    have "set (dict_keys (tier_cache (refresh_level k x t1)))
        = set (dict_keys (tier_cache (levels ! i)))" by simp
    with nj[of i] assms(2,3) g True show ?thesis by simp
  qed
  from assms(3) other have below: "\<forall>j<i. ls' ! j = levels ! j" by simp
  from other have above: "\<forall>j. i < j \<and> j < length levels \<longrightarrow> ls' ! j = levels ! j" by simp
  from keys have "\<forall>j<length levels.
      set (dict_keys (tier_cache (ls' ! j))) = set (dict_keys (tier_cache (levels ! j)))" by simp
  with r x len below above show ?thesis by blast
qed

theorem get_leaves_levels_in_place_witness:
  "list_all tier_bounded
     [LRU \<lparr>psize = 3, cache = [(''a'', ''1'')]\<rparr>,
      LFU \<lparr>psize = 2, cache = [(''b'', ''2''), (''c'', ''3'')], frequency = [(''b'', 1), (''c'', 1)]\<rparr>]
   \<and> mcs_get ''b''
     [LRU \<lparr>psize = 3, cache = [(''a'', ''1'')]\<rparr>,
      LFU \<lparr>psize = 2, cache = [(''b'', ''2''), (''c'', ''3'')], frequency = [(''b'', 1), (''c'', 1)]\<rparr>]
     = Returned (Some ''2'')
     [LRU \<lparr>psize = 3, cache = [(''a'', ''1'')]\<rparr>,
      LFU \<lparr>psize = 2, cache = [(''c'', ''3''), (''b'', ''2'')], frequency = [(''b'', 1), (''c'', 1)]\<rparr>]
   \<and> (\<exists>x ls'. mcs_get ''b''
     [LRU \<lparr>psize = 3, cache = [(''a'', ''1'')]\<rparr>,
      LFU \<lparr>psize = 2, cache = [(''b'', ''2''), (''c'', ''3'')], frequency = [(''b'', 1), (''c'', 1)]\<rparr>]
     = Returned (Some x) ls' \<and> ls' ! 0 = LRU \<lparr>psize = 3, cache = [(''a'', ''1'')]\<rparr>)"
proof -
  let ?L = "[LRU \<lparr>psize = 3, cache = [(''a'', ''1'')]\<rparr>,
      LFU \<lparr>psize = 2, cache = [(''b'', ''2''), (''c'', ''3'')], frequency = [(''b'', 1), (''c'', 1)]\<rparr>]"
  have h1: "list_all tier_bounded ?L" by (simp add: policy_bounded_def dict_keys_def)
  have h2: "(0::nat) < 1" by simp
  have h3: "1 < length ?L" by simp
  have h4: "\<forall>j<length ?L. dict_contains ''b'' (tier_cache (?L ! j)) = (j = 1)"
    by (auto simp: less_Suc_eq dict_contains_def dict_keys_def)
  have run: "mcs_get ''b'' ?L = Returned (Some ''2'')
     [LRU \<lparr>psize = 3, cache = [(''a'', ''1'')]\<rparr>,
      LFU \<lparr>psize = 2, cache = [(''c'', ''3''), (''b'', ''2'')], frequency = [(''b'', 1), (''c'', 1)]\<rparr>]"
    by (simp add: mcs_get_def move_up_def lru_get_def lfu_get_def lfu_put_def lfu_put_branch_def
        policy_remove_def dict_contains_def dict_keys_def dict_del_def counter_incr_def
        counter_get_def)
  from get_leaves_levels_in_place [OF h1 h2 h3 h4] obtain x ls' where
    "mcs_get ''b'' ?L = Returned (Some x) ls'" and "\<forall>j<1. ls' ! j = ?L ! j" by blast
  then have "mcs_get ''b'' ?L = Returned (Some x) ls'
      \<and> ls' ! 0 = LRU \<lparr>psize = 3, cache = [(''a'', ''1'')]\<rparr>" by simp
  then have "\<exists>x ls'. mcs_get ''b'' ?L = Returned (Some x) ls'
      \<and> ls' ! 0 = LRU \<lparr>psize = 3, cache = [(''a'', ''1'')]\<rparr>" by (intro exI)
  with h1 run show ?thesis by (intro conjI)
qed

text \<open>
  C10. When the first level that holds \<open>k\<close> is a frequency policy at index \<open>i\<close>,
  \<open>get(k)\<close> returns and leaves that level a frequency policy whose count for \<open>k\<close> is
  1 if \<open>i \<ge> 1\<close> (the refresh pass takes the key out and puts it back, and \<open>put\<close>
  sets the count to 1, overwriting both increments of the two \<open>get\<close> calls on that
  level), and the former count plus 1 if \<open>i = 0\<close> (the refresh pass starts at level 1).
\<close>

theorem get_hit_in_frequency_level:
  assumes "list_all tier_bounded levels" and "i < length levels" and "levels ! i = LFU s"
    and "dict_contains k (cache s)"
    and "\<forall>j<i. \<not> dict_contains k (tier_cache (levels ! j))"
  shows "\<exists>x ls' s'. mcs_get k levels = Returned (Some x) ls' \<and> ls' ! i = LFU s'
      \<and> counter_get (frequency s') k = (if i = 0 then counter_get (frequency s) k + 1 else 1)"
proof -
  from assms(3,4) have c: "dict_contains k (tier_cache (levels ! i))" by simp
  from mcs_get_first_hit[OF assms(1,2) c assms(5)] obtain x ls' where
    r: "mcs_get k levels = Returned (Some x) ls'"
    and n0: "ls' ! 0 = (if i = 0 then snd (tier_get k (levels ! 0)) else levels ! 0)"
    and nj: "\<And>j. 0 < j \<Longrightarrow> j < length levels \<Longrightarrow>
        ls' ! j = refresh_level k x (if j = i then snd (tier_get k (levels ! i)) else levels ! j)"
    by auto
  let ?s1 = "s\<lparr>frequency := counter_incr k (frequency s)\<rparr>"
  from lfu_get_hit[OF assms(4)] assms(3)
  have g: "snd (tier_get k (levels ! i)) = LFU ?s1" by auto
  show ?thesis
  proof (cases "i = 0")
    case True
    with n0 g have "ls' ! i = LFU ?s1" by simp
    with r True show ?thesis by (simp add: counter_get_incr)
  next
    case False
    from assms(1,2,3) have "policy_bounded s" by (auto simp: list_all_length dest: spec[of _ i])
    then have b1: "policy_bounded ?s1" by (simp add: policy_bounded_def)
    from assms(4) have c1: "dict_contains k (cache ?s1)" by simp
    from nj[of i] False assms(2) g have "ls' ! i = refresh_level k x (LFU ?s1)" by simp
    with refresh_level_hit_lfu[OF b1 c1, of x] r False show ?thesis
      by (simp add: counter_get_set)
  qed
qed

theorem get_hit_in_frequency_level_witness:
  "list_all tier_bounded
     [LRU \<lparr>psize = 3, cache = [(''a'', ''1'')]\<rparr>,
      LFU \<lparr>psize = 2, cache = [(''b'', ''2''), (''c'', ''3'')], frequency = [(''b'', 5), (''c'', 1)]\<rparr>]
   \<and> mcs_get ''b''
     [LRU \<lparr>psize = 3, cache = [(''a'', ''1'')]\<rparr>,
      LFU \<lparr>psize = 2, cache = [(''b'', ''2''), (''c'', ''3'')], frequency = [(''b'', 5), (''c'', 1)]\<rparr>]
     = Returned (Some ''2'')
     [LRU \<lparr>psize = 3, cache = [(''a'', ''1'')]\<rparr>,
      LFU \<lparr>psize = 2, cache = [(''c'', ''3''), (''b'', ''2'')], frequency = [(''b'', 1), (''c'', 1)]\<rparr>]
   \<and> (\<exists>x ls' s'. mcs_get ''b''
     [LRU \<lparr>psize = 3, cache = [(''a'', ''1'')]\<rparr>,
      LFU \<lparr>psize = 2, cache = [(''b'', ''2''), (''c'', ''3'')], frequency = [(''b'', 5), (''c'', 1)]\<rparr>]
     = Returned (Some x) ls' \<and> ls' ! 1 = LFU s' \<and> counter_get (frequency s') ''b'' = 1)
   \<and> (\<exists>x ls' s'. mcs_get ''b''
     [LFU \<lparr>psize = 2, cache = [(''b'', ''2''), (''c'', ''3'')], frequency = [(''b'', 5), (''c'', 1)]\<rparr>]
     = Returned (Some x) ls' \<and> ls' ! 0 = LFU s' \<and> counter_get (frequency s') ''b'' = 6)"
proof -
  let ?s = "\<lparr>psize = 2, cache = [(''b'', ''2''), (''c'', ''3'')], frequency = [(''b'', 5), (''c'', 1)]\<rparr>"
  let ?L = "[LRU \<lparr>psize = 3, cache = [(''a'', ''1'')]\<rparr>, LFU ?s]"
  have h1: "list_all tier_bounded ?L" by (simp add: policy_bounded_def dict_keys_def)
  have h2: "1 < length ?L" by simp
  have h3: "?L ! 1 = LFU ?s" by simp
  have h4: "dict_contains ''b'' (cache ?s)" by (simp add: dict_contains_def dict_keys_def)
  have h5: "\<forall>j<1. \<not> dict_contains ''b'' (tier_cache (?L ! j))"
    by (simp add: dict_contains_def dict_keys_def)
  have run: "mcs_get ''b'' ?L = Returned (Some ''2'')
     [LRU \<lparr>psize = 3, cache = [(''a'', ''1'')]\<rparr>,
      LFU \<lparr>psize = 2, cache = [(''c'', ''3''), (''b'', ''2'')], frequency = [(''b'', 1), (''c'', 1)]\<rparr>]"
    by (simp add: mcs_get_def move_up_def lru_get_def lfu_get_def lfu_put_def lfu_put_branch_def
        policy_remove_def dict_contains_def dict_keys_def dict_del_def counter_incr_def
        counter_get_def)
  from get_hit_in_frequency_level [OF h1 h2 h3 h4 h5]
  have lower: "\<exists>x ls' s'. mcs_get ''b'' ?L = Returned (Some x) ls' \<and> ls' ! 1 = LFU s'
      \<and> counter_get (frequency s') ''b'' = 1" by simp
  have g1: "list_all tier_bounded [LFU ?s]" by (simp add: policy_bounded_def dict_keys_def)
  have g2: "0 < length [LFU ?s]" by simp
  have g3: "[LFU ?s] ! 0 = LFU ?s" by simp
  have g5: "\<forall>j<0. \<not> dict_contains ''b'' (tier_cache ([LFU ?s] ! j))" by simp
  from get_hit_in_frequency_level [OF g1 g2 g3 h4 g5]
  have first: "\<exists>x ls' s'. mcs_get ''b'' [LFU ?s] = Returned (Some x) ls' \<and> ls' ! 0 = LFU s'
      \<and> counter_get (frequency s') ''b'' = 6" by (simp add: counter_get_def)
  from h1 run lower first show ?thesis by (intro conjI)
qed

section \<open>Insertion through the cache system\<close>

text \<open>
  C5. On a cache system with at least one level whose level 0 has size at least 1,
  whenever \<open>put(key, value)\<close> returns, level 0 maps \<open>key\<close> to \<open>value\<close>, whatever
  the levels held before: the value is written by the \<open>put\<close> of level 0 and the
  refresh pass starts at level 1. And the call does return when level 0 is well-formed
  (\<open>tier_ok\<close>) and the other levels are \<open>tier_bounded\<close>, as all levels built by the
  cache system are.
\<close>

theorem put_reaches_first_level:
  assumes "levels \<noteq> []" and "1 \<le> tier_size (hd levels)"
  shows "(\<forall>ls'. mcs_put k v levels = Returned () ls' \<longrightarrow>
            ls' \<noteq> [] \<and> map_of (tier_cache (hd ls')) k = Some v)
     \<and> (tier_ok (hd levels) \<and> list_all tier_bounded (tl levels) \<longrightarrow>
            (\<exists>ls'. mcs_put k v levels = Returned () ls'))"
proof (intro conjI allI impI)
  fix ls'
  assume r: "mcs_put k v levels = Returned () ls'"
  from mcs_put_Returned[OF r] obtain t0 t1 ts where
    "tier_put k v t0 = Inr t1" and l: "ls' = t1 # ts" by blast
  from tier_put_stores[OF this(1)] l
  show "ls' \<noteq> []" and "map_of (tier_cache (hd ls')) k = Some v" by simp_all
next
  assume ok: "tier_ok (hd levels) \<and> list_all tier_bounded (tl levels)"
  from assms(1) obtain t0 rest where l: "levels = t0 # rest" by (cases levels) auto
  with ok have "tier_ok t0" and b: "list_all tier_bounded rest" by simp_all
  from tier_put_total[OF this(1), of k v] obtain t1 where p: "tier_put k v t0 = Inr t1"
    by blast
  from l p refresh_bounded[OF b, of k v]
  show "\<exists>ls'. mcs_put k v levels = Returned () ls'"
    by (simp add: mcs_put_def move_up_def)
qed

theorem put_reaches_first_level_witness:
  "[LRU \<lparr>psize = 1, cache = [(''a'', ''1'')]\<rparr>,
    LFU \<lparr>psize = 2, cache = [(''b'', ''2'')], frequency = [(''b'', 3)]\<rparr>] \<noteq> []
   \<and> 1 \<le> tier_size (hd [LRU \<lparr>psize = 1, cache = [(''a'', ''1'')]\<rparr>,
        LFU \<lparr>psize = 2, cache = [(''b'', ''2'')], frequency = [(''b'', 3)]\<rparr>])
   \<and> mcs_put ''b'' ''9''
       [LRU \<lparr>psize = 1, cache = [(''a'', ''1'')]\<rparr>,
        LFU \<lparr>psize = 2, cache = [(''b'', ''2'')], frequency = [(''b'', 3)]\<rparr>]
     = Returned ()
       [LRU \<lparr>psize = 1, cache = [(''b'', ''9'')]\<rparr>,
        LFU \<lparr>psize = 2, cache = [(''b'', ''9'')], frequency = [(''b'', 1)]\<rparr>]
   \<and> map_of (tier_cache (hd
       [LRU \<lparr>psize = 1, cache = [(''b'', ''9'')]\<rparr>,
        LFU \<lparr>psize = 2, cache = [(''b'', ''9'')], frequency = [(''b'', 1)]\<rparr>])) ''b'' = Some ''9''
   \<and> tier_ok (hd [LRU \<lparr>psize = 1, cache = [(''a'', ''1'')]\<rparr>,
        LFU \<lparr>psize = 2, cache = [(''b'', ''2'')], frequency = [(''b'', 3)]\<rparr>])
   \<and> list_all tier_bounded (tl [LRU \<lparr>psize = 1, cache = [(''a'', ''1'')]\<rparr>,
        LFU \<lparr>psize = 2, cache = [(''b'', ''2'')], frequency = [(''b'', 3)]\<rparr>])
   \<and> (\<exists>ls'. mcs_put ''b'' ''9''
       [LRU \<lparr>psize = 1, cache = [(''a'', ''1'')]\<rparr>,
        LFU \<lparr>psize = 2, cache = [(''b'', ''2'')], frequency = [(''b'', 3)]\<rparr>] = Returned () ls')"
proof -
  let ?L = "[LRU \<lparr>psize = 1, cache = [(''a'', ''1'')]\<rparr>,
    LFU \<lparr>psize = 2, cache = [(''b'', ''2'')], frequency = [(''b'', 3)]\<rparr>]"
  let ?L' = "[LRU \<lparr>psize = 1, cache = [(''b'', ''9'')]\<rparr>,
        LFU \<lparr>psize = 2, cache = [(''b'', ''9'')], frequency = [(''b'', 1)]\<rparr>]"
  have h1: "?L \<noteq> []" by simp
  have h2: "1 \<le> tier_size (hd ?L)" by simp
  have run: "mcs_put ''b'' ''9'' ?L = Returned () ?L'"
    by (simp add: mcs_put_def move_up_def lru_put_def lru_put_branch_def popitem_first_def
        lfu_get_def lfu_put_def lfu_put_branch_def policy_remove_def dict_contains_def
        dict_keys_def dict_del_def counter_incr_def counter_get_def)
  from put_reaches_first_level [OF h1 h2, of "''b''" "''9''", THEN conjunct1, THEN spec,
      THEN mp, OF run]
  have stored: "map_of (tier_cache (hd ?L')) ''b'' = Some ''9''" by (rule conjunct2)
  have h3: "tier_ok (hd ?L) \<and> list_all tier_bounded (tl ?L)"
    by (simp add: lru_ok_def policy_bounded_def dict_keys_def)
  then have h3a: "tier_ok (hd ?L)" and h3b: "list_all tier_bounded (tl ?L)" by simp_all
  note returns = put_reaches_first_level [OF h1 h2, of "''b''" "''9''", THEN conjunct2,
      THEN mp, OF h3]
  from h1 h2 run stored h3a h3b returns show ?thesis by (intro conjI)
qed

end
